theory Spec2Isabelle
  imports Main "HOL-Library.Word" "HOL-Library.Signed_Division"
begin

unbundle bit_operations_syntax

section \<open>Configuration (main.c, lines 111--131)\<close>

text \<open>
  The model follows \<^verbatim>\<open>software/apps/my_terminal/main.c\<close>. Bytes (\<^verbatim>\<open>char\<close>,
  \<^verbatim>\<open>uint8_t\<close>) are \<open>8 word\<close>, the colour planes hold \<open>32 word\<close>, the cursor
  coordinates of \<^verbatim>\<open>terminal_state_t\<close> are \<open>16 word\<close>. Values of type \<^verbatim>\<open>uint\<close>
  that index the character grid, and the ring buffer's indices, are natural numbers: the
  code reduces or bounds-checks each of them before use, so no 32-bit (16-bit) wrap occurs.
\<close>

type_synonym byte = "8 word"

definition FONT_CHAR_WIDTH :: nat where "FONT_CHAR_WIDTH = 8"
definition FONT_CHAR_HEIGHT :: nat where "FONT_CHAR_HEIGHT = 16"
definition FRAME_WIDTH :: nat where "FRAME_WIDTH = 640"
definition FRAME_HEIGHT :: nat where "FRAME_HEIGHT = 480"
definition CHAR_COLS :: nat where "CHAR_COLS = FRAME_WIDTH div FONT_CHAR_WIDTH"
definition CHAR_ROWS :: nat where "CHAR_ROWS = FRAME_HEIGHT div FONT_CHAR_HEIGHT"
definition COLOUR_PLANE_SIZE_WORDS :: nat where
  "COLOUR_PLANE_SIZE_WORDS = CHAR_ROWS * CHAR_COLS * 4 div 32"
definition COLOUR_PAD_WORDS :: nat where "COLOUR_PAD_WORDS = 8"
definition UART_BUFFER_SIZE :: nat where "UART_BUFFER_SIZE = 512"
definition CURSOR_BLINK_MS :: nat where "CURSOR_BLINK_MS = 500"
definition MAIN_LOOP_MIN_MS :: nat where "MAIN_LOOP_MIN_MS = 10"
definition ANSI_PARAM_MAX :: nat where "ANSI_PARAM_MAX = 4"
definition MENU_BUFFER_WIDTH :: nat where "MENU_BUFFER_WIDTH = 34"
definition MENU_BUFFER_HEIGHT :: nat where "MENU_BUFFER_HEIGHT = 12"

section \<open>Colour planes\<close>

text \<open>
  \<^verbatim>\<open>set_colour\<close> (lines 289--308) on the colour buffer. A cell \<open>idx\<close> owns the
  4-bit field at bit \<open>(idx mod 8) * 4\<close> of word \<open>idx div 8\<close> in each of the three
  planes; plane \<open>p\<close> receives bits \<open>2p\<close> and \<open>2p+1\<close> of \<open>fg\<close> (low half of the
  field) and of \<open>bg\<close> (high half). The loop body, with the loop's running
  \<open>fg\<close> and \<open>bg\<close> (\<^verbatim>\<open>uint8_t\<close>, shifted right by two after each plane):
\<close>

definition set_colour_plane ::
  "nat \<Rightarrow> nat \<Rightarrow> nat \<Rightarrow> 32 word list \<times> byte \<times> byte \<Rightarrow> 32 word list \<times> byte \<times> byte" where
  "set_colour_plane wrd bt p st =
     (case st of (buf, fg, bg) \<Rightarrow>
        let val = (ucast (fg AND 0x3) :: 32 word) OR (push_bit 2 (ucast bg) AND 0xC);
            i = wrd + p * COLOUR_PLANE_SIZE_WORDS
        in (buf[i := (buf ! i AND NOT (push_bit bt 0xF)) OR push_bit bt val],
            drop_bit 2 fg, drop_bit 2 bg))"

definition colourbuf_set ::
  "nat \<Rightarrow> nat \<Rightarrow> byte \<Rightarrow> byte \<Rightarrow> 32 word list \<Rightarrow> 32 word list" where
  "colourbuf_set x y fg bg buf =
     (if x \<ge> CHAR_COLS \<or> y \<ge> CHAR_ROWS then buf
      else let idx = x + y * CHAR_COLS;
               bt = (idx mod 8) * 4;
               wrd = idx div 8
           in fst (fold (set_colour_plane wrd bt) [0..<3] (buf, fg, bg)))"

text \<open>
  The decoding loop that \<^verbatim>\<open>draw_color_menu\<close> (lines 523--536), \<^verbatim>\<open>draw_cursor_menu\<close>
  (lines 647--660) and the blink tick of \<^verbatim>\<open>main\<close> (lines 1130--1138) each carry inline:
  planes 2, 1, 0 in turn, each contributing two bits to \<open>fg\<close> and to \<open>bg\<close>
  (\<^verbatim>\<open>uint8_t\<close>, so the shifts truncate to eight bits).
\<close>

definition get_colour_plane ::
  "(nat \<Rightarrow> 32 word) \<Rightarrow> nat \<Rightarrow> nat \<Rightarrow> nat \<Rightarrow> byte \<times> byte \<Rightarrow> byte \<times> byte" where
  "get_colour_plane rd wrd bt p st =
     (case st of (fg, bg) \<Rightarrow>
        let val = rd (wrd + p * COLOUR_PLANE_SIZE_WORDS);
            nibble = (ucast (drop_bit bt val AND 0xF) :: byte)
        in (push_bit 2 fg OR (nibble AND 0x3),
            push_bit 2 bg OR (drop_bit 2 nibble AND 0x3)))"

text \<open>\<open>rd\<close> reads a word of the colour buffer, \<open>idx\<close> is the cell's index.\<close>

definition decode_colour :: "(nat \<Rightarrow> 32 word) \<Rightarrow> nat \<Rightarrow> byte \<times> byte" where
  "decode_colour rd idx =
     (let bt = (idx mod 8) * 4;
          wrd = idx div 8
      in fold (get_colour_plane rd wrd bt) (rev [0..<3]) (0, 0))"

text \<open>The colour pair of the cell at column \<open>px\<close>, row \<open>py\<close> of the grid.\<close>

definition colourbuf_get :: "32 word list \<Rightarrow> nat \<Rightarrow> nat \<Rightarrow> byte \<times> byte" where
  "colourbuf_get buf px py = decode_colour (\<lambda>i. buf ! i) (px + py * CHAR_COLS)"

section \<open>UART ring buffer\<close>

text \<open>
  \<^verbatim>\<open>uart_buffer\<close>, \<^verbatim>\<open>uart_head\<close>, \<^verbatim>\<open>uart_tail\<close>, \<^verbatim>\<open>uart_overflow\<close> (lines 151--154).
  The indices are \<^verbatim>\<open>uint16_t\<close>; every value the code stores in them is a remainder
  modulo \<^verbatim>\<open>UART_BUFFER_SIZE\<close>.
\<close>

record uart_state =
  uart_buffer :: "byte list"
  uart_head :: nat
  uart_tail :: nat
  uart_overflow :: bool

definition uart_init :: uart_state where
  "uart_init = \<lparr>uart_buffer = replicate UART_BUFFER_SIZE 0, uart_head = 0, uart_tail = 0,
                 uart_overflow = False\<rparr>"

text \<open>
  One turn of the loop of \<^verbatim>\<open>on_uart_rx\<close> (lines 969--981) for the received byte \<open>ch\<close>;
  the LED and its timer are left out.
\<close>

definition uart_rx_byte :: "byte \<Rightarrow> uart_state \<Rightarrow> uart_state" where
  "uart_rx_byte ch q =
     (let next_head = (uart_head q + 1) mod UART_BUFFER_SIZE
      in if next_head = uart_tail q then q\<lparr>uart_overflow := True\<rparr>
         else q\<lparr>uart_buffer := (uart_buffer q)[uart_head q := ch], uart_head := next_head\<rparr>)"

text \<open>\<^verbatim>\<open>on_uart_rx\<close>: the loop runs once for each byte \<open>rx\<close> the UART has ready.\<close>

definition on_uart_rx :: "byte list \<Rightarrow> uart_state \<Rightarrow> uart_state" where
  "on_uart_rx rx q = fold uart_rx_byte rx q"

text \<open>
  The fill level as line 999 computes it: the operands are promoted to \<^verbatim>\<open>int\<close>, and
  \<^verbatim>\<open>%\<close> truncates towards zero (\<open>smod\<close>).
\<close>

definition uart_level :: "uart_state \<Rightarrow> int" where
  "uart_level q =
     (int (uart_head q) - int (uart_tail q) + int UART_BUFFER_SIZE) smod int UART_BUFFER_SIZE"

text \<open>
  One turn of the loop of \<^verbatim>\<open>process_uart_buffer\<close> (lines 994--1005): take the byte at the
  tail, advance the tail, hand the byte to the handler (\<^verbatim>\<open>handle_char\<close>, which does not
  touch the ring buffer), then the overflow test.
\<close>

definition uart_consume :: "(byte \<Rightarrow> 's \<Rightarrow> 's) \<Rightarrow> uart_state \<times> 's \<Rightarrow> uart_state \<times> 's" where
  "uart_consume handler qs =
     (let q = fst qs;
          c = uart_buffer q ! uart_tail q;
          q1 = q\<lparr>uart_tail := (uart_tail q + 1) mod UART_BUFFER_SIZE\<rparr>;
          s1 = handler c (snd qs);
          q2 = (if uart_overflow q1 \<and> uart_level q1 > int (UART_BUFFER_SIZE div 4)
                then q1\<lparr>uart_overflow := False\<rparr> else q1)
      in (q2, s1))"

text \<open>
  \<^verbatim>\<open>process_uart_buffer\<close> (lines 992--1007). The loop runs until the tail meets the
  head; \<open>None\<close> stands for a loop that never ends.
\<close>

partial_function (option) process_uart_buffer ::
  "(byte \<Rightarrow> 's \<Rightarrow> 's) \<Rightarrow> uart_state \<times> 's \<Rightarrow> (uart_state \<times> 's) option" where
  "process_uart_buffer handler qs =
     (if uart_tail (fst qs) \<noteq> uart_head (fst qs)
      then process_uart_buffer handler (uart_consume handler qs)
      else Some qs)"

text \<open>The bytes a drain hands to its handler, in order: the handler that records them.\<close>

definition received :: "byte \<Rightarrow> byte list \<Rightarrow> byte list" where
  "received c bs = bs @ [c]"

section \<open>Global state of the terminal\<close>

datatype cursor_style =
  CURSOR__SOLID_BLOCK | CURSOR_UNDERLINE | CURSOR_BAR | CURSOR_APPLE_I |
  CURSOR_SHADED_BLOCK | CURSOR__SOLID_ARROW

text \<open>
  The globals of lines 134--216, the fields of \<^verbatim>\<open>terminal_state_t term\<close> among them under
  their own names (\<open>cursor_x\<close> is \<^verbatim>\<open>term.cursor_x\<close>). The variables of type \<^verbatim>\<open>int\<close>
  only ever hold \<open>-1\<close> or a copy of a 16-bit cursor coordinate and are of type \<open>int\<close>.
  Left out: the time stamps, the LED timer, \<^verbatim>\<open>deferred_char\<close> and \<^verbatim>\<open>deferred_pending\<close>
  (never set), the font table and the DVI driver's instance. The spin lock
  \<^verbatim>\<open>buffer_lock\<close> is free whenever the terminal loop runs alone, and each function that
  takes it releases it before returning; the model runs those sections as one step.
\<close>

record globals =
  charbuf_front :: "byte list"
  charbuf_back :: "byte list"
  colourbuf_front :: "32 word list"
  colourbuf_back :: "32 word list"
  swap_pending :: bool
  scroll_settled :: bool
  safe_to_scroll :: bool
  swap_queued :: bool
  cursor_x :: "16 word"
  cursor_y :: "16 word"
  cursor_visible :: bool
  escape_mode :: bool
  ansi_mode :: bool
  skip_next_lf :: bool
  skip_next_cr :: bool
  suppress_next_cr :: bool
  input_active :: bool
  cursor_drawn :: bool
  saved_cursor_x :: int
  saved_cursor_y :: int
  cursor_draw_x :: int
  cursor_draw_y :: int
  saved_cursor_char :: byte
  saved_cursor_fg :: byte
  cursor_blink_counter :: "32 word"
  buffer_dirty :: bool
  ansi_params :: "byte list"
  ansi_param_count :: byte
  ansi_param_index :: byte
  ansi_buffer :: "byte list"
  ansi_buf_len :: byte
  ansi_final_char :: byte
  current_cursor :: cursor_style
  current_fg :: byte
  current_bg :: byte
  saved_chars :: "byte list list"
  saved_fg :: "byte list list"
  saved_bg :: "byte list list"
  menu_left :: "16 word"
  menu_top :: "16 word"
  theme_select_mode :: bool
  cursor_menu_mode :: bool
  bg_color_menu_mode :: bool
  fg_color_menu_mode :: bool
  color_menu_buf :: "byte list"
  color_menu_buf_len :: byte

text \<open>The pair of back buffers that the drawing code writes.\<close>

type_synonym backbuf = "byte list \<times> 32 word list"

definition with_back :: "(backbuf \<Rightarrow> backbuf) \<Rightarrow> globals \<Rightarrow> globals" where
  "with_back f s =
     (let b = f (charbuf_back s, colourbuf_back s)
      in s\<lparr>charbuf_back := fst b, colourbuf_back := snd b\<rparr>)"

text \<open>An \<^verbatim>\<open>int\<close> passed for a \<^verbatim>\<open>uint\<close> parameter.\<close>

definition uint_of_int :: "int \<Rightarrow> nat" where
  "uint_of_int i = nat (i mod 2 ^ 32)"

subsection \<open>Utilities and the swap (lines 238--281)\<close>

definition reset_ansi_state :: "globals \<Rightarrow> globals" where
  "reset_ansi_state s =
     s\<lparr>ansi_param_count := 0, ansi_param_index := 0, ansi_buf_len := 0, ansi_final_char := 0\<rparr>"

definition request_swap :: "globals \<Rightarrow> globals" where
  "request_swap s =
     (if \<not> swap_queued s then s\<lparr>swap_pending := True, swap_queued := True\<rparr> else s)"

text \<open>Both \<^verbatim>\<open>memcpy\<close> calls copy the whole back array over the front array.\<close>

definition perform_swap :: "globals \<Rightarrow> globals" where
  "perform_swap s =
     s\<lparr>charbuf_front := charbuf_back s, colourbuf_front := colourbuf_back s,
       swap_pending := False, swap_queued := False,
       scroll_settled := True, safe_to_scroll := True\<rparr>"

definition safe_request_swap :: "globals \<Rightarrow> globals" where
  "safe_request_swap s =
     (if buffer_dirty s \<or> cursor_drawn s \<or> cursor_visible s
      then (perform_swap (request_swap s))\<lparr>buffer_dirty := False\<rparr>
      else s)"

subsection \<open>Cells (lines 283--308)\<close>

definition charbuf_set :: "nat \<Rightarrow> nat \<Rightarrow> byte \<Rightarrow> byte list \<Rightarrow> byte list" where
  "charbuf_set x y c buf =
     (if x < CHAR_COLS \<and> y < CHAR_ROWS then buf[x + y * CHAR_COLS := c] else buf)"

definition put_char :: "nat \<Rightarrow> nat \<Rightarrow> byte \<Rightarrow> backbuf \<Rightarrow> backbuf" where
  "put_char x y c b = (charbuf_set x y c (fst b), snd b)"

definition put_colour :: "nat \<Rightarrow> nat \<Rightarrow> byte \<Rightarrow> byte \<Rightarrow> backbuf \<Rightarrow> backbuf" where
  "put_colour x y fg bg b = (fst b, colourbuf_set x y fg bg (snd b))"

definition set_char :: "nat \<Rightarrow> nat \<Rightarrow> byte \<Rightarrow> globals \<Rightarrow> globals" where
  "set_char x y c s = with_back (put_char x y c) s"

definition set_colour :: "nat \<Rightarrow> nat \<Rightarrow> byte \<Rightarrow> byte \<Rightarrow> globals \<Rightarrow> globals" where
  "set_colour x y fg bg s = with_back (put_colour x y fg bg) s"

subsection \<open>Clearing, scrolling and the line advance (lines 311--383)\<close>

text \<open>
  \<^verbatim>\<open>clear_screen\<close>: the colour buffer is zeroed, then every cell receives a space and the
  current colour pair; the cursor goes to the origin and a swap is requested.
\<close>

definition clear_cell :: "byte \<Rightarrow> byte \<Rightarrow> nat \<Rightarrow> nat \<Rightarrow> backbuf \<Rightarrow> backbuf" where
  "clear_cell fg bg y x b =
     ((fst b)[x + y * CHAR_COLS := 0x20], colourbuf_set x y fg bg (snd b))"

definition clear_bufs :: "byte \<Rightarrow> byte \<Rightarrow> backbuf \<Rightarrow> backbuf" where
  "clear_bufs fg bg b =
     fold (\<lambda>y. fold (clear_cell fg bg y) [0..<CHAR_COLS]) [0..<CHAR_ROWS]
       (fst b, replicate (3 * COLOUR_PLANE_SIZE_WORDS + COLOUR_PAD_WORDS) 0)"

definition clear_screen :: "globals \<Rightarrow> globals" where
  "clear_screen s =
     request_swap
       ((with_back (clear_bufs (current_fg s) (current_bg s)) s)\<lparr>cursor_x := 0, cursor_y := 0\<rparr>)"

text \<open>
  \<^verbatim>\<open>memmove\<close> of \<open>n\<close> elements within one array, from offset \<open>src\<close> to offset
  \<open>dst\<close>; both ranges lie inside the array at each call.
\<close>

definition memmove :: "'a list \<Rightarrow> nat \<Rightarrow> nat \<Rightarrow> nat \<Rightarrow> 'a list" where
  "memmove buf dst src n = take dst buf @ take n (drop src buf) @ drop (dst + n) buf"

definition clear_nibble :: "nat \<Rightarrow> 32 word list \<Rightarrow> 32 word list" where
  "clear_nibble x col =
     (let idx = x + (CHAR_ROWS - 1) * CHAR_COLS;
          bt = (idx mod 8) * 4;
          wrd = idx div 8
      in fold (\<lambda>p c. c[wrd + p * COLOUR_PLANE_SIZE_WORDS :=
                         c ! (wrd + p * COLOUR_PLANE_SIZE_WORDS) AND NOT (push_bit bt 0xF)])
           [0..<3] col)"

definition scroll_bufs :: "byte \<Rightarrow> byte \<Rightarrow> backbuf \<Rightarrow> backbuf" where
  "scroll_bufs fg bg b =
     (let cb1 = memmove (fst b) 0 CHAR_COLS ((CHAR_ROWS - 1) * CHAR_COLS);
          cb2 = fold (\<lambda>x cb. cb[x + (CHAR_ROWS - 1) * CHAR_COLS := 0x20]) [0..<CHAR_COLS] cb1;
          col1 = fold (\<lambda>p col. memmove col (p * COLOUR_PLANE_SIZE_WORDS)
                                  (p * COLOUR_PLANE_SIZE_WORDS + CHAR_COLS div 8)
                                  ((CHAR_ROWS - 1) * (CHAR_COLS div 8)))
                   [0..<3] (snd b);
          col2 = fold clear_nibble [0..<CHAR_COLS] col1;
          col3 = fold (\<lambda>x. colourbuf_set x (CHAR_ROWS - 1) fg bg) [0..<CHAR_COLS] col2
      in (cb2, col3))"

definition scroll_up :: "globals \<Rightarrow> globals" where
  "scroll_up s =
     safe_request_swap
       ((with_back (scroll_bufs (current_fg s) (current_bg s)) s)\<lparr>buffer_dirty := True\<rparr>)"

text \<open>
  \<^verbatim>\<open>new_line\<close>: \<^verbatim>\<open>++term.cursor_y\<close> is a 16-bit increment, compared with
  \<^verbatim>\<open>CHAR_ROWS\<close> after promotion.
\<close>

definition new_line :: "globals \<Rightarrow> globals" where
  "new_line s =
     (let s1 = s\<lparr>cursor_x := 0\<rparr>;
          s2 = s1\<lparr>cursor_y := cursor_y s1 + 1\<rparr>;
          s3 = (if unat (cursor_y s2) \<ge> CHAR_ROWS
                then scroll_up (s2\<lparr>cursor_y := of_nat (CHAR_ROWS - 1)\<rparr>)
                else s2)
      in safe_request_swap (s3\<lparr>buffer_dirty := True\<rparr>))"

section \<open>ANSI sequences (lines 388--498)\<close>

definition ansi_colors :: "byte list" where
  "ansi_colors = [0, 48, 12, 60, 3, 51, 15, 63]"

definition process_ansi_code :: "byte \<Rightarrow> globals \<Rightarrow> globals" where
  "process_ansi_code param s =
     (if param = 0 then s\<lparr>current_fg := 63, current_bg := 0\<rparr>
      else if param \<ge> 30 \<and> param \<le> 37
        then s\<lparr>current_fg := ansi_colors ! unat (param - 30)\<rparr>
      else if param \<ge> 40 \<and> param \<le> 47
        then s\<lparr>current_bg := ansi_colors ! unat (param - 40)\<rparr>
      else s)"

text \<open>Case \<^verbatim>\<open>'K'\<close>: the cells from the cursor to the end of its line.\<close>

definition erase_to_eol :: "nat \<Rightarrow> nat \<Rightarrow> byte \<Rightarrow> byte \<Rightarrow> backbuf \<Rightarrow> backbuf" where
  "erase_to_eol x0 y fg bg b =
     fold (\<lambda>x b. put_colour x y fg bg (put_char x y 0x20 b)) [x0..<CHAR_COLS] b"

text \<open>
  The step count of cases \<^verbatim>\<open>'A'\<close> to \<^verbatim>\<open>'D'\<close>, a \<^verbatim>\<open>uint8_t\<close>.
\<close>

definition csi_count :: "byte list \<Rightarrow> byte \<Rightarrow> byte" where
  "csi_count params count = (if count \<ge> 1 \<and> params ! 0 > 0 then params ! 0 else 1)"

text \<open>
  \<^verbatim>\<open>process_ansi_sequence\<close>. The final bytes are \<open>J\<close> 0x4A, \<open>K\<close> 0x4B, \<open>H\<close> 0x48,
  \<open>m\<close> 0x6D, \<open>s\<close> 0x73, \<open>u\<close> 0x75, \<open>A\<close> 0x41, \<open>B\<close> 0x42, \<open>C\<close> 0x43, \<open>D\<close> 0x44.
  The comparisons and sums of cases \<open>A\<close> to \<open>D\<close> are on promoted values; the
  compound assignments store 16 bits.
\<close>

definition process_ansi_sequence :: "byte list \<Rightarrow> byte \<Rightarrow> byte \<Rightarrow> globals \<Rightarrow> globals" where
  "process_ansi_sequence params count final s =
     (if final = 0x4A then
        (if count = 1 \<and> params ! 0 = 2 then clear_screen s else s)
      else if final = 0x4B then
        (with_back (erase_to_eol (unat (cursor_x s)) (unat (cursor_y s))
                      (current_fg s) (current_bg s)) s)\<lparr>buffer_dirty := True\<rparr>
      else if final = 0x48 then
        (let s1 = (if count \<ge> 1
                   then s\<lparr>cursor_y := (if params ! 0 > 0 then ucast (params ! 0) - 1 else 0)\<rparr>
                   else s)
         in if count \<ge> 2
            then s1\<lparr>cursor_x := (if params ! 1 > 0 then ucast (params ! 1) - 1 else 0)\<rparr>
            else s1)
      else if final = 0x6D then
        fold (\<lambda>i. process_ansi_code (params ! i)) [0..<unat count] s
      else if final = 0x73 then
        s\<lparr>saved_cursor_x := uint (cursor_x s), saved_cursor_y := uint (cursor_y s)\<rparr>
      else if final = 0x75 then
        (if saved_cursor_x s \<noteq> -1 \<and> saved_cursor_y s \<noteq> -1
         then s\<lparr>cursor_x := word_of_int (saved_cursor_x s),
                cursor_y := word_of_int (saved_cursor_y s)\<rparr>
         else s)
      else if final = 0x41 then
        (let n = csi_count params count
         in if unat (cursor_y s) \<ge> unat n then s\<lparr>cursor_y := cursor_y s - ucast n\<rparr>
            else s\<lparr>cursor_y := 0\<rparr>)
      else if final = 0x42 then
        (let n = csi_count params count
         in if unat (cursor_y s) + unat n < CHAR_ROWS then s\<lparr>cursor_y := cursor_y s + ucast n\<rparr>
            else s\<lparr>cursor_y := of_nat (CHAR_ROWS - 1)\<rparr>)
      else if final = 0x43 then
        (let n = csi_count params count
         in if unat (cursor_x s) + unat n < CHAR_COLS then s\<lparr>cursor_x := cursor_x s + ucast n\<rparr>
            else s\<lparr>cursor_x := of_nat (CHAR_COLS - 1)\<rparr>)
      else if final = 0x44 then
        (let n = csi_count params count
         in if unat (cursor_x s) \<ge> unat n then s\<lparr>cursor_x := cursor_x s - ucast n\<rparr>
            else s\<lparr>cursor_x := 0\<rparr>)
      else s)"

subsection \<open>The C library's \<^verbatim>\<open>atoi\<close>\<close>

text \<open>
  \<^verbatim>\<open>atoi\<close> belongs to the C library the firmware links (newlib, with the Pico SDK), not
  to the repository. There \<^verbatim>\<open>atoi(s)\<close> is \<^verbatim>\<open>(int) strtol(s, NULL, 10)\<close>: white space is
  skipped, a sign is read, then decimal digits up to the first other character, and a
  value outside the 32-bit \<^verbatim>\<open>long\<close> is clamped to \<^verbatim>\<open>LONG_MAX\<close> or \<^verbatim>\<open>LONG_MIN\<close>. The C
  standard leaves the result undefined when the value does not fit.
\<close>

definition cstring :: "byte list \<Rightarrow> byte list" where
  "cstring buf = takeWhile (\<lambda>c. c \<noteq> 0) buf"

definition isdigit :: "byte \<Rightarrow> bool" where
  "isdigit c = (0x30 \<le> c \<and> c \<le> 0x39)"

definition isspace :: "byte \<Rightarrow> bool" where
  "isspace c = (c = 0x20 \<or> (0x09 \<le> c \<and> c \<le> 0x0D))"

fun digits_value :: "nat \<Rightarrow> byte list \<Rightarrow> nat" where
  "digits_value acc [] = acc"
| "digits_value acc (c # cs) =
     (if isdigit c then digits_value (acc * 10 + unat (c - 0x30)) cs else acc)"

definition atoi :: "byte list \<Rightarrow> int" where
  "atoi str =
     (let s1 = dropWhile isspace str;
          neg = (s1 \<noteq> [] \<and> hd s1 = 0x2D);
          s2 = (if s1 \<noteq> [] \<and> (hd s1 = 0x2D \<or> hd s1 = 0x2B) then tl s1 else s1);
          v = int (digits_value 0 s2)
      in if neg then (if v > 2 ^ 31 then - (2 ^ 31) else - v)
         else (if v > 2 ^ 31 - 1 then 2 ^ 31 - 1 else v))"

section \<open>Menus (lines 501--692)\<close>

text \<open>
  Saving the screen region under a menu: \<^verbatim>\<open>saved_chars\<close>, \<^verbatim>\<open>saved_fg\<close> and
  \<^verbatim>\<open>saved_bg\<close> receive the character and the decoded colours of each cell of the region
  that lies on the grid (lines 515--539 and 639--663, the same loop).
\<close>

type_synonym saved_region = "byte list list \<times> byte list list \<times> byte list list"

definition array2_set :: "'a list list \<Rightarrow> nat \<Rightarrow> nat \<Rightarrow> 'a \<Rightarrow> 'a list list" where
  "array2_set m r c v = m[r := (m ! r)[c := v]]"

definition save_cell :: "backbuf \<Rightarrow> nat \<Rightarrow> nat \<Rightarrow> nat \<Rightarrow> nat \<Rightarrow> saved_region \<Rightarrow> saved_region" where
  "save_cell b mleft mtop row col sv =
     (let px = mleft + col; py = mtop + row
      in if px < CHAR_COLS \<and> py < CHAR_ROWS
         then (case sv of (sc, sf, sb) \<Rightarrow>
                 (array2_set sc row col (fst b ! (px + py * CHAR_COLS)),
                  array2_set sf row col (fst (colourbuf_get (snd b) px py)),
                  array2_set sb row col (snd (colourbuf_get (snd b) px py))))
         else sv)"

definition save_region :: "backbuf \<Rightarrow> nat \<Rightarrow> nat \<Rightarrow> saved_region \<Rightarrow> saved_region" where
  "save_region b mleft mtop sv =
     fold (\<lambda>row. fold (save_cell b mleft mtop row) [0..<MENU_BUFFER_WIDTH])
       [0..<MENU_BUFFER_HEIGHT] sv"

definition save_menu_region :: "globals \<Rightarrow> globals" where
  "save_menu_region s =
     (let sv = save_region (charbuf_back s, colourbuf_back s)
                 (unat (menu_left s)) (unat (menu_top s))
                 (saved_chars s, saved_fg s, saved_bg s)
      in s\<lparr>saved_chars := fst sv, saved_fg := fst (snd sv), saved_bg := snd (snd sv)\<rparr>)"

text \<open>Text drawn with a colour pair (the title, prompt and menu-line loops).\<close>

definition draw_text :: "nat \<Rightarrow> nat \<Rightarrow> byte \<Rightarrow> byte \<Rightarrow> byte list \<Rightarrow> backbuf \<Rightarrow> backbuf" where
  "draw_text x y fg bg str b =
     fold (\<lambda>i b. put_colour (x + i) y fg bg (put_char (x + i) y (str ! i) b)) [0..<length str] b"

text \<open>
  The box of a menu: corners 0x2B, horizontal edges 0x2D, vertical edges 0x7C.
  \<open>x\<close> and \<open>y\<close> are the first column and row inside the box, \<open>w\<close> its width,
  \<open>n\<close> the number of rows with a vertical edge and \<open>down\<close> the offset of the bottom
  edge from the top edge (lines 542--557: 32, 10 and 10; lines 665--680: \<^verbatim>\<open>box_width\<close>,
  \<^verbatim>\<open>box_height - 2\<close> and \<^verbatim>\<open>box_height - 1\<close>).
\<close>

definition draw_box :: "nat \<Rightarrow> nat \<Rightarrow> nat \<Rightarrow> nat \<Rightarrow> nat \<Rightarrow> backbuf \<Rightarrow> backbuf" where
  "draw_box x y w n down b =
     (let mleft = x - 1; mtop = y - 1;
          b1 = put_char mleft mtop 0x2B b;
          b2 = fold (\<lambda>i. put_char (x + i) mtop 0x2D) [0..<w] b1;
          b3 = put_char (mleft + w) mtop 0x2B b2;
          b4 = fold (\<lambda>i b. put_char (mleft + w) (y + i) 0x7C (put_char mleft (y + i) 0x7C b))
                 [0..<n] b3;
          b5 = put_char mleft (mtop + down) 0x2B b4;
          b6 = fold (\<lambda>i. put_char (x + i) (mtop + down) 0x2D) [0..<w] b5
      in put_char (mleft + w) (mtop + down) 0x2B b6)"

text \<open>
  One entry of the colour grid (lines 568--582): the two decimal digits of the colour
  (\<^verbatim>\<open>snprintf\<close> with \<^verbatim>\<open>"%02d"\<close>) and a block character, white on that colour.
\<close>

definition color_grid_cell :: "nat \<Rightarrow> nat \<Rightarrow> nat \<Rightarrow> nat \<Rightarrow> backbuf \<Rightarrow> backbuf" where
  "color_grid_cell x y row col b =
     (let color_idx = row * 8 + col;
          pos_x = x + col * 4;
          pos_y = y + row + 1;
          b1 = put_char pos_x pos_y (0x30 + of_nat (color_idx div 10)) b;
          b2 = put_char (pos_x + 1) pos_y (0x30 + of_nat (color_idx mod 10)) b1;
          b3 = put_colour pos_x pos_y 63 (of_nat color_idx) b2;
          b4 = put_colour (pos_x + 1) pos_y 63 (of_nat color_idx) b3;
          b5 = put_char (pos_x + 2) pos_y 0xDB b4
      in put_colour (pos_x + 2) pos_y 63 (of_nat color_idx) b5)"

definition color_menu_paint ::
  "nat \<Rightarrow> nat \<Rightarrow> byte \<Rightarrow> byte \<Rightarrow> byte list \<Rightarrow> byte list \<Rightarrow> backbuf \<Rightarrow> backbuf" where
  "color_menu_paint x y fg bg title prompt b =
     (let b1 = draw_box x y 32 10 10 b;
          b2 = draw_text x y fg bg title b1;
          b3 = fold (\<lambda>row. fold (color_grid_cell x y row) [0..<8]) [0..<8] b2
      in draw_text x (y + 9) fg bg prompt b3)"

text \<open>
  \<^verbatim>\<open>draw_color_menu\<close>: the menu's first inner row is the row after the cursor, or row
  \<^verbatim>\<open>CHAR_ROWS - 12\<close> when the menu would not fit below the cursor.
\<close>

definition draw_color_menu :: "byte list \<Rightarrow> byte list \<Rightarrow> globals \<Rightarrow> globals" where
  "draw_color_menu title prompt s =
     (let x = 2;
          y = (if unat (cursor_y s) + 12 < CHAR_ROWS then unat (cursor_y s) + 1
               else CHAR_ROWS - 12);
          s1 = s\<lparr>menu_left := of_nat (x - 1), menu_top := of_nat (y - 1)\<rparr>;
          s2 = save_menu_region s1;
          s3 = with_back (color_menu_paint x y (current_fg s2) (current_bg s2) title prompt) s2
      in safe_request_swap (s3\<lparr>buffer_dirty := True\<rparr>))"

text \<open>\<^verbatim>\<open>restore_menu_region\<close> (lines 597--610).\<close>

definition restore_cell :: "saved_region \<Rightarrow> nat \<Rightarrow> nat \<Rightarrow> nat \<Rightarrow> nat \<Rightarrow> backbuf \<Rightarrow> backbuf" where
  "restore_cell sv mleft mtop row col b =
     (let px = mleft + col; py = mtop + row
      in if px < CHAR_COLS \<and> py < CHAR_ROWS
         then (case sv of (sc, sf, sb) \<Rightarrow>
                 put_colour px py (sf ! row ! col) (sb ! row ! col)
                   (put_char px py (sc ! row ! col) b))
         else b)"

definition restore_region :: "saved_region \<Rightarrow> nat \<Rightarrow> nat \<Rightarrow> backbuf \<Rightarrow> backbuf" where
  "restore_region sv mleft mtop b =
     fold (\<lambda>row. fold (restore_cell sv mleft mtop row) [0..<MENU_BUFFER_WIDTH])
       [0..<MENU_BUFFER_HEIGHT] b"

definition restore_menu_region :: "globals \<Rightarrow> globals" where
  "restore_menu_region s =
     safe_request_swap
       ((with_back (restore_region (saved_chars s, saved_fg s, saved_bg s)
                      (unat (menu_left s)) (unat (menu_top s))) s)\<lparr>buffer_dirty := True\<rparr>)"

text \<open>\<^verbatim>\<open>draw_cursor_menu\<close> (lines 612--692) and its eight lines of text.\<close>

definition bytes :: "string \<Rightarrow> byte list" where
  "bytes str = map of_char str"

definition cursor_menu_lines :: "byte list list" where
  "cursor_menu_lines =
     [bytes ''Cursor Style Menu:'',
      bytes ''[1] Block        '' @ [0xDB],
      bytes ''[2] Underline    _'',
      bytes ''[3] Bar          |'',
      bytes ''[4] Apple I      @'',
      bytes ''[5] Shaded Block '' @ [0xB2],
      bytes ''[6] Arrow        >'',
      bytes ''Select style: '']"

definition cursor_menu_paint :: "nat \<Rightarrow> nat \<Rightarrow> byte \<Rightarrow> byte \<Rightarrow> backbuf \<Rightarrow> backbuf" where
  "cursor_menu_paint x y fg bg b =
     (let num_lines = length cursor_menu_lines;
          box_width = 32;
          box_height = num_lines + 2;
          b1 = draw_box x y box_width (box_height - 2) (box_height - 1) b
      in fold (\<lambda>i. draw_text x (y + i) fg bg (cursor_menu_lines ! i)) [0..<num_lines] b1)"

definition draw_cursor_menu :: "globals \<Rightarrow> globals" where
  "draw_cursor_menu s =
     (let x = 2;
          y = (if unat (cursor_y s) + MENU_BUFFER_HEIGHT + 1 < CHAR_ROWS then unat (cursor_y s) + 1
               else CHAR_ROWS - MENU_BUFFER_HEIGHT - 1);
          s1 = s\<lparr>menu_left := of_nat (x - 1), menu_top := of_nat (y - 1)\<rparr>;
          s2 = save_menu_region s1;
          s3 = with_back (cursor_menu_paint x y (current_fg s2) (current_bg s2)) s2
      in safe_request_swap (s3\<lparr>buffer_dirty := True\<rparr>))"

section \<open>Character handling (\<^verbatim>\<open>handle_char\<close>, lines 695--964)\<close>

text \<open>
  \<^verbatim>\<open>handle_char\<close> is one long function; its blocks are modelled one by one. The bytes
  it tests: CR 0x0D, LF 0x0A, ESC 0x1B, backspace 0x08, \<open>[\<close> 0x5B, \<open>;\<close> 0x3B,
  the digits 0x30 to 0x39.
\<close>

text \<open>Lines 700--705: a cursor glyph on the screen is taken off first.\<close>

definition remove_cursor :: "globals \<Rightarrow> globals" where
  "remove_cursor s =
     (if cursor_drawn s
      then (set_colour (uint_of_int (cursor_draw_x s)) (uint_of_int (cursor_draw_y s))
              (saved_cursor_fg s) (current_bg s)
              (set_char (uint_of_int (cursor_draw_x s)) (uint_of_int (cursor_draw_y s))
                 (saved_cursor_char s) s))\<lparr>cursor_drawn := False, buffer_dirty := True\<rparr>
      else s)"

text \<open>
  Committing the digit buffer as a parameter (lines 749--752 and 756--759):
  \<^verbatim>\<open>ansi_params[ansi_param_count++] = atoi(ansi_buffer)\<close> stores the \<^verbatim>\<open>int\<close> in a
  \<^verbatim>\<open>uint8_t\<close>.
\<close>

definition terminate_ansi_buffer :: "globals \<Rightarrow> globals" where
  "terminate_ansi_buffer s = s\<lparr>ansi_buffer := (ansi_buffer s)[unat (ansi_buf_len s) := 0]\<rparr>"

definition commit_ansi_param :: "globals \<Rightarrow> globals" where
  "commit_ansi_param s =
     s\<lparr>ansi_params := (ansi_params s)[unat (ansi_param_count s) :=
                          word_of_int (atoi (cstring (ansi_buffer s)))],
       ansi_param_count := ansi_param_count s + 1\<rparr>"

text \<open>Lines 735--769, entered when \<^verbatim>\<open>term.escape_mode\<close> is set.\<close>

definition handle_escape :: "byte \<Rightarrow> globals \<Rightarrow> globals" where
  "handle_escape c s =
     (if c = 0x5B then reset_ansi_state (s\<lparr>ansi_mode := True\<rparr>)
      else if ansi_mode s then
        (if c \<ge> 0x30 \<and> c \<le> 0x39 then
           (if unat (ansi_buf_len s) < 16 - 1
            then s\<lparr>ansi_buffer := (ansi_buffer s)[unat (ansi_buf_len s) := c],
                   ansi_buf_len := ansi_buf_len s + 1\<rparr>
            else s)
         else if c = 0x3B then
           (let s1 = terminate_ansi_buffer s;
                s2 = (if unat (ansi_param_count s1) < ANSI_PARAM_MAX
                      then commit_ansi_param s1 else s1)
            in s2\<lparr>ansi_buf_len := 0\<rparr>)
         else
           (let s1 = terminate_ansi_buffer s;
                s2 = (if ansi_buf_len s1 > 0 \<and> unat (ansi_param_count s1) < ANSI_PARAM_MAX
                      then commit_ansi_param s1 else s1);
                s3 = process_ansi_sequence (ansi_params s2) (ansi_param_count s2) c s2
            in s3\<lparr>escape_mode := False, ansi_mode := False\<rparr>))
      else s\<lparr>escape_mode := False\<rparr>)"

text \<open>
  Lines 771--794 and 795--818: the colour menus. The colour number is computed in
  \<^verbatim>\<open>int\<close> and stored in a \<^verbatim>\<open>uint8_t\<close>, which is arithmetic modulo 256.
\<close>

definition color_menu_num :: "globals \<Rightarrow> byte" where
  "color_menu_num s = (color_menu_buf s ! 0 - 0x30) * 10 + (color_menu_buf s ! 1 - 0x30)"

definition handle_fg_color_menu :: "byte \<Rightarrow> globals \<Rightarrow> globals" where
  "handle_fg_color_menu c s =
     (if c \<ge> 0x30 \<and> c \<le> 0x39 \<and> color_menu_buf_len s < 2 then
        (let s1 = s\<lparr>color_menu_buf := (color_menu_buf s)[unat (color_menu_buf_len s) := c],
                    color_menu_buf_len := color_menu_buf_len s + 1\<rparr>
         in if color_menu_buf_len s1 = 2 then
              (let color_num = color_menu_num s1;
                   s2 = (if color_num < 64 then s1\<lparr>current_fg := color_num\<rparr> else s1)
               in (restore_menu_region s2)\<lparr>fg_color_menu_mode := False, color_menu_buf_len := 0\<rparr>)
            else s1)
      else if c = 0x08 \<and> color_menu_buf_len s > 0 then
        s\<lparr>color_menu_buf_len := color_menu_buf_len s - 1\<rparr>
      else if c = 0x1B then
        (restore_menu_region s)\<lparr>fg_color_menu_mode := False, color_menu_buf_len := 0\<rparr>
      else s)"

definition handle_bg_color_menu :: "byte \<Rightarrow> globals \<Rightarrow> globals" where
  "handle_bg_color_menu c s =
     (if c \<ge> 0x30 \<and> c \<le> 0x39 \<and> color_menu_buf_len s < 2 then
        (let s1 = s\<lparr>color_menu_buf := (color_menu_buf s)[unat (color_menu_buf_len s) := c],
                    color_menu_buf_len := color_menu_buf_len s + 1\<rparr>
         in if color_menu_buf_len s1 = 2 then
              (let color_num = color_menu_num s1;
                   s2 = (if color_num < 64 then s1\<lparr>current_bg := color_num\<rparr> else s1)
               in (restore_menu_region s2)\<lparr>bg_color_menu_mode := False, color_menu_buf_len := 0\<rparr>)
            else s1)
      else if c = 0x08 \<and> color_menu_buf_len s > 0 then
        s\<lparr>color_menu_buf_len := color_menu_buf_len s - 1\<rparr>
      else if c = 0x1B then
        (restore_menu_region s)\<lparr>bg_color_menu_mode := False, color_menu_buf_len := 0\<rparr>
      else s)"

text \<open>Lines 820--835: the cursor style menu, keys \<open>1\<close> to \<open>6\<close>.\<close>

definition cursor_menu_choice :: "byte \<Rightarrow> cursor_style option" where
  "cursor_menu_choice c =
     (if c = 0x31 then Some CURSOR__SOLID_BLOCK
      else if c = 0x32 then Some CURSOR_UNDERLINE
      else if c = 0x33 then Some CURSOR_BAR
      else if c = 0x34 then Some CURSOR_APPLE_I
      else if c = 0x35 then Some CURSOR_SHADED_BLOCK
      else if c = 0x36 then Some CURSOR__SOLID_ARROW
      else None)"

definition handle_cursor_menu :: "byte \<Rightarrow> globals \<Rightarrow> globals" where
  "handle_cursor_menu c s =
     (case cursor_menu_choice c of
        None \<Rightarrow> s
      | Some style \<Rightarrow>
          (restore_menu_region (s\<lparr>current_cursor := style, cursor_menu_mode := False\<rparr>))
            \<lparr>cursor_visible := True, cursor_blink_counter := 0\<rparr>)"

text \<open>Lines 837--853: the theme presets, keys \<open>0\<close> to \<open>9\<close>, as (foreground, background).\<close>

definition theme_choice :: "byte \<Rightarrow> (byte \<times> byte) option" where
  "theme_choice c =
     (if c = 0x30 then Some (12, 0)
      else if c = 0x31 then Some (60, 0)
      else if c = 0x32 then Some (63, 3)
      else if c = 0x33 then Some (0, 63)
      else if c = 0x34 then Some (11, 3)
      else if c = 0x35 then Some (60, 3)
      else if c = 0x36 then Some (51, 0)
      else if c = 0x37 then Some (42, 0)
      else if c = 0x38 then Some (15, 0)
      else if c = 0x39 then Some (48, 21)
      else None)"

definition handle_theme_select :: "byte \<Rightarrow> globals \<Rightarrow> globals" where
  "handle_theme_select c s =
     (case theme_choice c of
        None \<Rightarrow> s
      | Some (fg, bg) \<Rightarrow> s\<lparr>current_fg := fg, current_bg := bg, theme_select_mode := False\<rparr>)"

text \<open>
  Lines 855--910: the \<^verbatim>\<open>switch\<close> on the byte. Ctrl+F 0x06, Ctrl+B 0x02, Ctrl+T 0x14,
  Ctrl+N 0x0E.
\<close>

definition handle_key :: "byte \<Rightarrow> globals \<Rightarrow> globals" where
  "handle_key c s =
     (if c = 0x06 then
        draw_color_menu (bytes ''Foreground Color Menu'') (bytes ''Enter color code (00-63):'')
          (s\<lparr>fg_color_menu_mode := True, color_menu_buf_len := 0,
              color_menu_buf := replicate 3 0\<rparr>)
      else if c = 0x02 then
        draw_color_menu (bytes ''Background Color Menu'') (bytes ''Enter color code (00-63):'')
          (s\<lparr>bg_color_menu_mode := True, color_menu_buf_len := 0,
              color_menu_buf := replicate 3 0\<rparr>)
      else if c = 0x14 then s\<lparr>theme_select_mode := True\<rparr>
      else if c = 0x0E then draw_cursor_menu (s\<lparr>cursor_menu_mode := True\<rparr>)
      else if c = 0x1B then s\<lparr>escape_mode := True\<rparr>
      else if c = 0x0D then (new_line s)\<lparr>skip_next_lf := True, suppress_next_cr := True\<rparr>
      else if c = 0x0A then (new_line s)\<lparr>skip_next_cr := True\<rparr>
      else if c = 0x08 then
        (if cursor_x s > 0 then
           (let s1 = s\<lparr>cursor_x := cursor_x s - 1\<rparr>;
                s2 = set_char (unat (cursor_x s1)) (unat (cursor_y s1)) 0x20 s1;
                s3 = set_colour (unat (cursor_x s2)) (unat (cursor_y s2))
                       (current_fg s2) (current_bg s2) s2
            in s3\<lparr>buffer_dirty := True\<rparr>)
         else s)
      else
        (let s1 = set_char (unat (cursor_x s)) (unat (cursor_y s)) c s;
             s2 = set_colour (unat (cursor_x s1)) (unat (cursor_y s1))
                    (current_fg s1) (current_bg s1) s1;
             s3 = s2\<lparr>cursor_x := cursor_x s2 + 1, buffer_dirty := True\<rparr>
         in if unat (cursor_x s3) \<ge> CHAR_COLS then new_line s3 else s3))"

text \<open>
  Lines 913--956: the cursor is drawn again at the cursor position. The read of
  \<^verbatim>\<open>charbuf_back[cursor_draw_x + cursor_draw_y * CHAR_COLS]\<close> has no bounds check, nor
  have the reads of \<^verbatim>\<open>colourbuf_back\<close> in the blink of the main loop. Outside the array
  such a read yields whatever the memory holds at that place: \<open>stray_byte\<close> and
  \<open>stray_word\<close> give that content by index, and every theorem holds for any content.
\<close>

record stray_memory =
  stray_byte :: "int \<Rightarrow> byte"
  stray_word :: "nat \<Rightarrow> 32 word"

definition read_charbuf :: "stray_memory \<Rightarrow> byte list \<Rightarrow> int \<Rightarrow> byte" where
  "read_charbuf oob buf i =
     (if 0 \<le> i \<and> i < int (length buf) then buf ! nat i else stray_byte oob i)"

definition read_colourbuf :: "stray_memory \<Rightarrow> 32 word list \<Rightarrow> nat \<Rightarrow> 32 word" where
  "read_colourbuf oob buf i = (if i < length buf then buf ! i else stray_word oob i)"

definition cursor_glyph :: "cursor_style \<Rightarrow> byte" where
  "cursor_glyph style =
     (case style of
        CURSOR__SOLID_BLOCK \<Rightarrow> 0xDB
      | CURSOR_APPLE_I \<Rightarrow> 0x40
      | CURSOR_UNDERLINE \<Rightarrow> 0x5F
      | CURSOR_BAR \<Rightarrow> 0x7C
      | CURSOR_SHADED_BLOCK \<Rightarrow> 0xB2
      | CURSOR__SOLID_ARROW \<Rightarrow> 0x3E)"

text \<open>Lines 938--955 and 1141--1157: blank the cell, then the glyph in the current colours.\<close>

definition paint_cursor :: "globals \<Rightarrow> globals" where
  "paint_cursor s =
     (let x = uint_of_int (cursor_draw_x s); y = uint_of_int (cursor_draw_y s);
          s1 = set_colour x y 0 (current_bg s) (set_char x y 0x20 s);
          s2 = set_colour x y (current_fg s1) (current_bg s1)
                 (set_char x y (cursor_glyph (current_cursor s1)) s1)
      in s2\<lparr>cursor_drawn := True\<rparr>)"

definition redraw_cursor :: "stray_memory \<Rightarrow> globals \<Rightarrow> globals" where
  "redraw_cursor oob s =
     (if cursor_visible s \<and> \<not> cursor_menu_mode s then
        (let s1 = (if cursor_drawn s
                   then set_colour (uint_of_int (cursor_draw_x s)) (uint_of_int (cursor_draw_y s))
                          (saved_cursor_fg s) (current_bg s)
                          (set_char (uint_of_int (cursor_draw_x s)) (uint_of_int (cursor_draw_y s))
                             (saved_cursor_char s) s)
                   else s);
             s2 = s1\<lparr>cursor_draw_x := uint (cursor_x s1), cursor_draw_y := uint (cursor_y s1)\<rparr>;
             s3 = s2\<lparr>saved_cursor_char :=
                       read_charbuf oob (charbuf_back s2)
                         (cursor_draw_x s2 + cursor_draw_y s2 * int CHAR_COLS)\<rparr>
         in (paint_cursor s3)\<lparr>buffer_dirty := True\<rparr>)
      else s)"

text \<open>\<^verbatim>\<open>handle_char\<close>, with the early returns of lines 708--725 and of each mode.\<close>

definition handle_char :: "stray_memory \<Rightarrow> byte \<Rightarrow> globals \<Rightarrow> globals" where
  "handle_char oob c s =
     (let s0 = remove_cursor (s\<lparr>input_active := True\<rparr>)
      in if suppress_next_cr s0 \<and> c = 0x0D then s0\<lparr>suppress_next_cr := False\<rparr>
         else
           (let s1 = s0\<lparr>suppress_next_cr := False\<rparr>
            in if skip_next_lf s1 \<and> c = 0x0A then s1\<lparr>skip_next_lf := False\<rparr>
               else if skip_next_cr s1 \<and> c = 0x0D then s1\<lparr>skip_next_cr := False\<rparr>
               else
                 (let s2 = (if skip_next_lf s1 \<and> c \<noteq> 0x0A
                            then s1\<lparr>skip_next_lf := False\<rparr> else s1);
                      s3 = (if skip_next_cr s2 \<and> c \<noteq> 0x0D
                            then s2\<lparr>skip_next_cr := False\<rparr> else s2)
                  in if escape_mode s3 then handle_escape c s3
                     else if fg_color_menu_mode s3 then handle_fg_color_menu c s3
                     else if bg_color_menu_mode s3 then handle_bg_color_menu c s3
                     else if cursor_menu_mode s3 then handle_cursor_menu c s3
                     else if theme_select_mode s3 then handle_theme_select c s3
                     else safe_request_swap (redraw_cursor oob (handle_key c s3)))))"

text \<open>A sequence of bytes handled one after the other.\<close>

definition feed :: "stray_memory \<Rightarrow> byte list \<Rightarrow> globals \<Rightarrow> globals" where
  "feed oob cs s = fold (handle_char oob) cs s"

section \<open>The two loops (lines 1010--1046 and 1056--1197)\<close>

text \<open>
  The cursor blink of the main loop (lines 1115--1172). The counter is a \<^verbatim>\<open>uint32_t\<close>;
  the threshold is \<^verbatim>\<open>CURSOR_BLINK_MS / MAIN_LOOP_MIN_MS\<close>.
\<close>

definition cursor_blink :: "stray_memory \<Rightarrow> globals \<Rightarrow> globals" where
  "cursor_blink oob s =
     (if cursor_visible s \<and> \<not> cursor_menu_mode s then
        (let s1 = s\<lparr>cursor_blink_counter := cursor_blink_counter s + 1\<rparr>
         in if unat (cursor_blink_counter s1) \<ge> CURSOR_BLINK_MS div MAIN_LOOP_MIN_MS then
              (let s2 = s1\<lparr>cursor_blink_counter := 0\<rparr>;
                   s3 = (if cursor_drawn s2 then
                           (set_colour (uint_of_int (cursor_draw_x s2)) (uint_of_int (cursor_draw_y s2))
                              (saved_cursor_fg s2) (current_bg s2)
                              (set_char (uint_of_int (cursor_draw_x s2)) (uint_of_int (cursor_draw_y s2))
                                 (saved_cursor_char s2) s2))\<lparr>cursor_drawn := False\<rparr>
                         else
                           (let s4 = s2\<lparr>cursor_draw_x := uint (cursor_x s2),
                                         cursor_draw_y := uint (cursor_y s2)\<rparr>;
                                s5 = s4\<lparr>saved_cursor_char :=
                                          read_charbuf oob (charbuf_back s4)
                                            (cursor_draw_x s4 + cursor_draw_y s4 * int CHAR_COLS)\<rparr>;
                                s6 = s5\<lparr>saved_cursor_fg :=
                                          fst (decode_colour (read_colourbuf oob (colourbuf_back s5))
                                                 (nat (cursor_draw_x s5) +
                                                  nat (cursor_draw_y s5) * CHAR_COLS))\<rparr>
                            in paint_cursor s6))
               in safe_request_swap (s3\<lparr>buffer_dirty := True\<rparr>))
            else s1)
      else s)"

text \<open>
  One pass of the main loop (lines 1110--1196): the blink, then the drain of the ring
  buffer into \<^verbatim>\<open>handle_char\<close>. The watchdog, the LED and the pacing wait are left out.
\<close>

definition main_loop_pass ::
  "stray_memory \<Rightarrow> uart_state \<times> globals \<Rightarrow> (uart_state \<times> globals) option" where
  "main_loop_pass oob qs = process_uart_buffer (handle_char oob) (fst qs, cursor_blink oob (snd qs))"

text \<open>
  The render loop of \<^verbatim>\<open>core1_main\<close>, for scan line \<open>y\<close> of a frame (lines 1017--1044):
  the swap test, then the encoding of the line from the front buffers, which writes only
  the DVI driver's buffers.
\<close>

definition core1_scanline :: "nat \<Rightarrow> globals \<Rightarrow> globals" where
  "core1_scanline y s = (if y = 0 \<and> swap_pending s then perform_swap s else s)"

definition core1_frame :: "globals \<Rightarrow> globals" where
  "core1_frame s = fold core1_scanline [0..<FRAME_HEIGHT] s"

text \<open>
  The state when the main loop starts: the initial values of the globals (lines
  134--216), then the assignments of \<^verbatim>\<open>main\<close> (lines 1089--1107), which clears the screen
  and performs the first swap.
\<close>

definition static_init :: globals where
  "static_init =
     \<lparr>charbuf_front = replicate (CHAR_ROWS * CHAR_COLS) 0,
      charbuf_back = replicate (CHAR_ROWS * CHAR_COLS) 0,
      colourbuf_front = replicate (3 * COLOUR_PLANE_SIZE_WORDS + COLOUR_PAD_WORDS) 0,
      colourbuf_back = replicate (3 * COLOUR_PLANE_SIZE_WORDS + COLOUR_PAD_WORDS) 0,
      swap_pending = False, scroll_settled = True, safe_to_scroll = False, swap_queued = False,
      cursor_x = 0, cursor_y = 0, cursor_visible = False, escape_mode = False,
      ansi_mode = False, skip_next_lf = False, skip_next_cr = False, suppress_next_cr = False,
      input_active = False, cursor_drawn = False,
      saved_cursor_x = -1, saved_cursor_y = -1, cursor_draw_x = -1, cursor_draw_y = -1,
      saved_cursor_char = 0x20, saved_cursor_fg = 0, cursor_blink_counter = 0,
      buffer_dirty = False,
      ansi_params = replicate ANSI_PARAM_MAX 0, ansi_param_count = 0, ansi_param_index = 0,
      ansi_buffer = replicate 16 0, ansi_buf_len = 0, ansi_final_char = 0,
      current_cursor = CURSOR_APPLE_I, current_fg = 12, current_bg = 0,
      saved_chars = replicate MENU_BUFFER_HEIGHT (replicate MENU_BUFFER_WIDTH 0),
      saved_fg = replicate MENU_BUFFER_HEIGHT (replicate MENU_BUFFER_WIDTH 0),
      saved_bg = replicate MENU_BUFFER_HEIGHT (replicate MENU_BUFFER_WIDTH 0),
      menu_left = 0, menu_top = 0,
      theme_select_mode = False, cursor_menu_mode = False,
      bg_color_menu_mode = False, fg_color_menu_mode = False,
      color_menu_buf = replicate 3 0, color_menu_buf_len = 0\<rparr>"

definition main_init :: globals where
  "main_init =
     (perform_swap
        (clear_screen
           (static_init\<lparr>suppress_next_cr := False, cursor_visible := True,
              cursor_x := 0, cursor_y := 0, cursor_draw_x := 0, cursor_draw_y := 0,
              saved_cursor_x := 0, saved_cursor_y := 0\<rparr>)))\<lparr>cursor_blink_counter := 0\<rparr>"


text \<open>A memory that holds zeros outside the arrays, for statements about one run.\<close>

definition zero_stray :: stray_memory where
  "zero_stray = \<lparr>stray_byte = (\<lambda>_. 0), stray_word = (\<lambda>_. 0)\<rparr>"

section \<open>Notions used in the proofs\<close>

text \<open>The 4-bit field \<^verbatim>\<open>set_colour\<close> writes for one plane, and the field a decoder reads.\<close>

definition plane_val :: "byte \<Rightarrow> byte \<Rightarrow> 32 word" where
  "plane_val fg bg = (ucast (fg AND 0x3) :: 32 word) OR (push_bit 2 (ucast bg) AND 0xC)"

definition nibble_at :: "(nat \<Rightarrow> 32 word) \<Rightarrow> nat \<Rightarrow> nat \<Rightarrow> byte" where
  "nibble_at rd i b = ucast (drop_bit b (rd i) AND 0xF)"


text \<open>
  The ring buffer as a queue: its indices are in range, \<open>uart_count\<close> bytes are buffered,
  and \<open>uart_contents\<close> lists them from the tail on.
\<close>

definition uart_wf :: "uart_state \<Rightarrow> bool" where
  "uart_wf q \<longleftrightarrow>
     length (uart_buffer q) = UART_BUFFER_SIZE \<and> uart_head q < UART_BUFFER_SIZE \<and>
     uart_tail q < UART_BUFFER_SIZE"

definition uart_count :: "uart_state \<Rightarrow> nat" where
  "uart_count q = (uart_head q + UART_BUFFER_SIZE - uart_tail q) mod UART_BUFFER_SIZE"

definition uart_contents :: "uart_state \<Rightarrow> byte list" where
  "uart_contents q =
     map (\<lambda>i. uart_buffer q ! ((uart_tail q + i) mod UART_BUFFER_SIZE)) [0..<uart_count q]"


text \<open>
  Names for parts of \<^verbatim>\<open>handle_char\<close> and of the functions it calls, used to state what
  they do: whether \<^verbatim>\<open>safe_request_swap\<close> copies, the back buffers once a drawn cursor is
  taken off, whether a line advance scrolls and the back buffers after it, the back
  buffers with the cursor glyph painted, the part of \<^verbatim>\<open>handle_char\<close> before the mode
  tests (for a byte that is neither CR nor LF) and the mode tests themselves.
\<close>

definition swap_due :: "globals \<Rightarrow> bool" where
  "swap_due s \<longleftrightarrow> buffer_dirty s \<or> cursor_drawn s \<or> cursor_visible s"

definition unpaint :: "globals \<Rightarrow> backbuf" where
  "unpaint s =
     (if cursor_drawn s
      then put_colour (uint_of_int (cursor_draw_x s)) (uint_of_int (cursor_draw_y s))
             (saved_cursor_fg s) (current_bg s)
             (put_char (uint_of_int (cursor_draw_x s)) (uint_of_int (cursor_draw_y s))
                (saved_cursor_char s) (charbuf_back s, colourbuf_back s))
      else (charbuf_back s, colourbuf_back s))"

definition wraps_line :: "globals \<Rightarrow> bool" where
  "wraps_line s \<longleftrightarrow> unat (cursor_y s + 1) \<ge> CHAR_ROWS"

definition back_after_line :: "globals \<Rightarrow> backbuf" where
  "back_after_line s =
     (if wraps_line s
      then scroll_bufs (current_fg s) (current_bg s) (charbuf_back s, colourbuf_back s)
      else (charbuf_back s, colourbuf_back s))"

definition painted :: "nat \<Rightarrow> nat \<Rightarrow> byte \<Rightarrow> byte \<Rightarrow> byte \<Rightarrow> backbuf \<Rightarrow> backbuf" where
  "painted x y glyph fg bg b =
     put_colour x y fg bg (put_char x y glyph (put_colour x y 0 bg (put_char x y 0x20 b)))"

definition prologue :: "globals \<Rightarrow> globals" where
  "prologue s =
     (remove_cursor (s\<lparr>input_active := True\<rparr>))
       \<lparr>suppress_next_cr := False, skip_next_lf := False, skip_next_cr := False\<rparr>"

definition dispatch :: "stray_memory \<Rightarrow> byte \<Rightarrow> globals \<Rightarrow> globals" where
  "dispatch oob c s =
     (if escape_mode s then handle_escape c s
      else if fg_color_menu_mode s then handle_fg_color_menu c s
      else if bg_color_menu_mode s then handle_bg_color_menu c s
      else if cursor_menu_mode s then handle_cursor_menu c s
      else if theme_select_mode s then handle_theme_select c s
      else safe_request_swap (redraw_cursor oob (handle_key c s)))"


definition normal_mode :: "globals \<Rightarrow> bool" where
  "normal_mode s \<longleftrightarrow>
     \<not> escape_mode s \<and> \<not> fg_color_menu_mode s \<and> \<not> bg_color_menu_mode s \<and>
     \<not> cursor_menu_mode s \<and> \<not> theme_select_mode s"


text \<open>The guard of the cursor redraw and of the cursor blink.\<close>

definition redraw_on :: "globals \<Rightarrow> bool" where
  "redraw_on s \<longleftrightarrow> cursor_visible s \<and> \<not> cursor_menu_mode s"




text \<open>
  The escape parser's part of the state, with the cursor it acts on; the value of a string
  of decimal digits; the bytes that end a CSI sequence (neither a digit, a semicolon or a
  bracket, nor CR or LF, which the suppression flags may swallow); a one-based parameter
  as a zero-based coordinate, from the stored byte and from the number.
\<close>

record parser =
  p_escape :: bool
  p_ansi :: bool
  p_buf :: "byte list"
  p_len :: byte
  p_params :: "byte list"
  p_count :: byte
  p_x :: "16 word"
  p_y :: "16 word"

definition parser_of :: "globals \<Rightarrow> parser" where
  "parser_of s =
     \<lparr>p_escape = escape_mode s, p_ansi = ansi_mode s, p_buf = ansi_buffer s,
      p_len = ansi_buf_len s, p_params = ansi_params s, p_count = ansi_param_count s,
      p_x = cursor_x s, p_y = cursor_y s\<rparr>"

definition decimal_value :: "byte list \<Rightarrow> nat" where
  "decimal_value ds = foldl (\<lambda>a c. a * 10 + (unat c - 48)) 0 ds"


definition csi_final :: "byte \<Rightarrow> bool" where
  "csi_final c \<longleftrightarrow> \<not> isdigit c \<and> c \<noteq> 0x3B \<and> c \<noteq> 0x5B \<and> c \<noteq> 0x0D \<and> c \<noteq> 0x0A"


definition zero_based :: "byte \<Rightarrow> 16 word" where
  "zero_based p = (if p > 0 then ucast p - 1 else 0)"


definition csi_coord :: "nat \<Rightarrow> 16 word" where
  "csi_coord v = (if v = 0 then 0 else word_of_nat (v - 1))"



text \<open>What the cell at column \<open>x\<close>, row \<open>y\<close> shows: its character, foreground and background.\<close>

definition cell :: "backbuf \<Rightarrow> nat \<Rightarrow> nat \<Rightarrow> byte \<times> byte \<times> byte" where
  "cell b x y = (fst b ! (x + y * CHAR_COLS), colourbuf_get (snd b) x y)"



text \<open>
  The screen region under a menu is restored in \<open>s'\<close>: every cell of the region that
  lies on the grid shows the character and the colours (their low six bits) that \<open>s\<close>
  holds in \<^verbatim>\<open>saved_chars\<close>, \<^verbatim>\<open>saved_fg\<close> and \<^verbatim>\<open>saved_bg\<close>.
\<close>

definition region_restored :: "globals \<Rightarrow> globals \<Rightarrow> bool" where
  "region_restored s s' \<longleftrightarrow>
     (\<forall>row \<in> set [0..<MENU_BUFFER_HEIGHT]. \<forall>col \<in> set [0..<MENU_BUFFER_WIDTH].
        unat (menu_left s) + col < CHAR_COLS \<and> unat (menu_top s) + row < CHAR_ROWS \<longrightarrow>
          cell (charbuf_back s', colourbuf_back s') (unat (menu_left s) + col) (unat (menu_top s) + row)
            = (saved_chars s ! row ! col, saved_fg s ! row ! col AND mask 6,
               saved_bg s ! row ! col AND mask 6))"

section \<open>Proofs: the colour planes\<close>

lemma grid_consts:
  "CHAR_COLS = 80" "CHAR_ROWS = 30" "COLOUR_PLANE_SIZE_WORDS = 300" "COLOUR_PAD_WORDS = 8"
  by (simp_all add: CHAR_COLS_def CHAR_ROWS_def COLOUR_PLANE_SIZE_WORDS_def COLOUR_PAD_WORDS_def
      FRAME_WIDTH_def FRAME_HEIGHT_def FONT_CHAR_WIDTH_def FONT_CHAR_HEIGHT_def)

lemma upt_3: "[0..<3] = [0, 1, 2]"
  by (simp add: upt_rec)

lemma word_15_mask: "(15 :: 'a::len word) = mask 4"
  by (simp add: mask_eq_exp_minus_1)

lemma word_3_mask: "(3 :: 'a::len word) = mask 2"
  by (simp add: mask_eq_exp_minus_1)

lemma word_12_mask: "(12 :: 32 word) = push_bit 2 (mask 2)"
  by (simp add: mask_eq_exp_minus_1)

text \<open>Writing a 4-bit field and reading it back gives the low four bits written.\<close>

lemma field_write_read:
  fixes w v :: "32 word"
  assumes "bt \<le> 28"
  shows "drop_bit bt ((w AND NOT (push_bit bt 0xF)) OR push_bit bt v) AND 0xF = v AND 0xF"
  unfolding word_15_mask
  by (rule bit_word_eqI) (use assms in \<open>auto simp add: bit_simps\<close>)

lemma Suc_Suc_diff_2: "2 \<le> n \<Longrightarrow> Suc (Suc (n - 2)) = n"
  by arith

lemma join_two_bits:
  fixes w :: byte
  shows "push_bit 2 (drop_bit 2 w AND mask k) OR (w AND mask 2) = w AND mask (k + 2)"
  by (rule bit_word_eqI) (auto simp add: bit_simps Suc_Suc_diff_2 not_less)

lemma nibble_fg:
  "(ucast (plane_val fg bg AND 0xF) :: byte) AND 0x3 = fg AND mask 2"
  unfolding plane_val_def word_15_mask word_3_mask word_12_mask
  by (rule bit_word_eqI) (auto simp add: bit_simps)

lemma nibble_bg:
  "drop_bit 2 (ucast (plane_val fg bg AND 0xF) :: byte) AND 0x3 = bg AND mask 2"
  unfolding plane_val_def word_15_mask word_3_mask word_12_mask
  by (rule bit_word_eqI) (auto simp add: bit_simps)

lemma rebuild_six_bits:
  fixes fg :: byte
  shows "push_bit 2 (push_bit 2 (push_bit 2 0 OR (drop_bit 4 fg AND mask 2))
                       OR (drop_bit 2 fg AND mask 2)) OR (fg AND mask 2)
         = fg AND mask 6"
proof -
  have d: "drop_bit 4 fg = drop_bit 2 (drop_bit 2 fg)" by simp
  have "push_bit 2 (push_bit 2 (push_bit 2 0 OR (drop_bit 2 (drop_bit 2 fg) AND mask 2))
                      OR (drop_bit 2 fg AND mask 2)) OR (fg AND mask 2)
        = fg AND mask (2 + 2 + 2)"
    by (simp only: push_bit_of_0 or.left_neutral join_two_bits)
  then show ?thesis unfolding d by simp
qed

lemma colourbuf_set_planes:
  assumes "x < 80" "y < 30" "900 \<le> length buf"
  defines "w \<equiv> (x + y * 80) div 8" and "b \<equiv> ((x + y * 80) mod 8) * 4"
  shows "colourbuf_set x y fg bg buf ! w
           = (buf ! w AND NOT (push_bit b 0xF)) OR push_bit b (plane_val fg bg)"
    and "colourbuf_set x y fg bg buf ! (w + 300)
           = (buf ! (w + 300) AND NOT (push_bit b 0xF))
               OR push_bit b (plane_val (drop_bit 2 fg) (drop_bit 2 bg))"
    and "colourbuf_set x y fg bg buf ! (w + 600)
           = (buf ! (w + 600) AND NOT (push_bit b 0xF))
               OR push_bit b (plane_val (drop_bit 4 fg) (drop_bit 4 bg))"
proof -
  have w: "w < 300" using assms(1,2) unfolding w_def by simp
  with assms(3) show
    "colourbuf_set x y fg bg buf ! w
           = (buf ! w AND NOT (push_bit b 0xF)) OR push_bit b (plane_val fg bg)"
    "colourbuf_set x y fg bg buf ! (w + 300)
           = (buf ! (w + 300) AND NOT (push_bit b 0xF))
               OR push_bit b (plane_val (drop_bit 2 fg) (drop_bit 2 bg))"
    "colourbuf_set x y fg bg buf ! (w + 600)
           = (buf ! (w + 600) AND NOT (push_bit b 0xF))
               OR push_bit b (plane_val (drop_bit 4 fg) (drop_bit 4 bg))"
    using assms(1,2)
    by (simp_all add: colourbuf_set_def set_colour_plane_def grid_consts upt_3 Let_def
        plane_val_def w_def [symmetric] b_def [symmetric])
qed

lemma decode_colour_unfold:
  "decode_colour rd idx =
     (push_bit 2 (push_bit 2 (push_bit 2 0 OR (nibble_at rd (idx div 8 + 600) ((idx mod 8) * 4) AND 0x3))
                   OR (nibble_at rd (idx div 8 + 300) ((idx mod 8) * 4) AND 0x3))
        OR (nibble_at rd (idx div 8) ((idx mod 8) * 4) AND 0x3),
      push_bit 2 (push_bit 2 (push_bit 2 0 OR (drop_bit 2 (nibble_at rd (idx div 8 + 600) ((idx mod 8) * 4)) AND 0x3))
                   OR (drop_bit 2 (nibble_at rd (idx div 8 + 300) ((idx mod 8) * 4)) AND 0x3))
        OR (drop_bit 2 (nibble_at rd (idx div 8) ((idx mod 8) * 4)) AND 0x3))"
  by (simp add: decode_colour_def get_colour_plane_def grid_consts upt_3 Let_def nibble_at_def)

lemma nibble_of_plane:
  fixes w :: "32 word"
  assumes "b \<le> 28"
  shows "(ucast (drop_bit b ((w AND NOT (push_bit b 0xF)) OR push_bit b (plane_val fg bg)) AND 0xF) :: byte)
           AND 0x3 = fg AND mask 2"
    and "drop_bit 2 (ucast (drop_bit b ((w AND NOT (push_bit b 0xF)) OR push_bit b (plane_val fg bg)) AND 0xF) :: byte)
           AND 0x3 = bg AND mask 2"
  using nibble_fg [of fg bg] nibble_bg [of fg bg]
  by (simp_all only: field_write_read [OF assms])

text \<open>Decoding a cell that \<^verbatim>\<open>set_colour\<close> wrote gives the low six bits of each colour.\<close>

lemma colourbuf_get_set:
  assumes "x < 80" "y < 30" "900 \<le> length buf"
  shows "colourbuf_get (colourbuf_set x y fg bg buf) x y = (fg AND mask 6, bg AND mask 6)"
proof -
  define w where "w = (x + y * 80) div 8"
  define b where "b = ((x + y * 80) mod 8) * 4"
  have b: "b \<le> 28" unfolding b_def by simp
  note pl = colourbuf_set_planes [OF assms, of fg bg, folded w_def b_def]
  show ?thesis
    unfolding colourbuf_get_def grid_consts decode_colour_unfold nibble_at_def
      w_def [symmetric] b_def [symmetric]
    by (simp only: pl nibble_of_plane [OF b] rebuild_six_bits)
qed

lemma six_bits_id:
  fixes fg :: byte
  shows "fg < 64 \<Longrightarrow> fg AND mask 6 = fg"
  using less_mask_eq [of fg 6] by simp


text \<open>
  C1. Colour round trip: for a cell of the grid and colours \<open>fg\<close>, \<open>bg\<close> below 64,
  decoding the cell's three 4-bit fields (as the menu save loop does) after \<^verbatim>\<open>set_colour\<close>
  has packed the pair into them gives back exactly \<open>(fg, bg)\<close>.
\<close>

theorem colour_round_trip:
  assumes "x < CHAR_COLS" and "y < CHAR_ROWS" and "fg < 64" and "bg < 64"
    and "length (colourbuf_back s) = 3 * COLOUR_PLANE_SIZE_WORDS + COLOUR_PAD_WORDS"
  shows "colourbuf_get (colourbuf_back (set_colour x y fg bg s)) x y = (fg, bg)"
proof -
  have "colourbuf_back (set_colour x y fg bg s) = colourbuf_set x y fg bg (colourbuf_back s)"
    by (simp add: set_colour_def with_back_def put_colour_def)
  moreover have "x < 80" "y < 30" "900 \<le> length (colourbuf_back s)"
    using assms by (simp_all add: grid_consts)
  ultimately show ?thesis
    using assms(3,4) by (simp add: colourbuf_get_set six_bits_id)
qed

theorem colour_round_trip_witness:
  "colourbuf_get (colourbuf_back (set_colour 5 7 42 17 static_init)) 5 7 = (42, 17)"
  using colour_round_trip [of 5 7 42 17 static_init]
  by (simp add: static_init_def grid_consts)

section \<open>Proofs: the UART ring buffer\<close>

lemma smod_nonneg: "0 \<le> a \<Longrightarrow> 0 < b \<Longrightarrow> (a :: int) smod b = a mod b"
  by (simp add: signed_modulo_int_def sgn_if)

lemma ring_dist:
  fixes h t :: nat
  assumes "h < 512" "t < 512"
  shows "(h + 512 - t) mod 512 = (if t \<le> h then h - t else h + 512 - t)"
proof (cases "t \<le> h")
  case True
  then have "h + 512 - t = (h - t) + 512" by simp
  then have "(h + 512 - t) mod 512 = (h - t) mod 512" by (simp only: mod_add_self2)
  with True assms show ?thesis by simp
next
  case False
  with assms show ?thesis by simp
qed

lemma ring_add:
  fixes t i :: nat
  assumes "t < 512" "i < 512"
  shows "(t + i) mod 512 = (if t + i < 512 then t + i else t + i - 512)"
proof (cases "t + i < 512")
  case True
  then show ?thesis by simp
next
  case False
  then have "t + i = (t + i - 512) + 512" by simp
  then have "(t + i) mod 512 = (t + i - 512) mod 512" by (metis mod_add_self2)
  with False assms show ?thesis by simp
qed

lemma uart_count_alt:
  "uart_wf q \<Longrightarrow> uart_count q =
     (if uart_tail q \<le> uart_head q then uart_head q - uart_tail q
      else uart_head q + 512 - uart_tail q)"
  unfolding uart_wf_def uart_count_def UART_BUFFER_SIZE_def
  using ring_dist [of "uart_head q" "uart_tail q"] by simp

lemma uart_level_count: "uart_wf q \<Longrightarrow> uart_level q = int (uart_count q)"
proof -
  assume wf: "uart_wf q"
  then have "0 \<le> int (uart_head q) - int (uart_tail q) + 512"
    unfolding uart_wf_def UART_BUFFER_SIZE_def by simp
  then have "uart_level q = (int (uart_head q) - int (uart_tail q) + 512) mod 512"
    by (simp add: uart_level_def UART_BUFFER_SIZE_def smod_nonneg)
  also have "int (uart_head q) - int (uart_tail q) + 512 = int (uart_head q + 512 - uart_tail q)"
    using wf unfolding uart_wf_def UART_BUFFER_SIZE_def by simp
  finally show ?thesis
    by (simp add: uart_count_def UART_BUFFER_SIZE_def zmod_int)
qed

lemma uart_count_less: "uart_count q < 512"
  by (simp add: uart_count_def UART_BUFFER_SIZE_def)

lemma uart_count_empty: "uart_wf q \<Longrightarrow> uart_count q = 0 \<longleftrightarrow> uart_tail q = uart_head q"
  using uart_count_alt [of q] unfolding uart_wf_def UART_BUFFER_SIZE_def
  by (auto split: if_splits)

lemma next_index: "i < 512 \<Longrightarrow> (i + 1) mod 512 = (if i = 511 then 0 else i + 1)" for i :: nat
  by simp

lemma rx_byte_full:
  assumes "uart_wf q" "uart_count q = 511"
  shows "uart_rx_byte c q = q\<lparr>uart_overflow := True\<rparr>"
proof -
  have "(uart_head q + 1) mod 512 = uart_tail q"
    using assms uart_count_alt [of q] next_index [of "uart_head q"]
    unfolding uart_wf_def UART_BUFFER_SIZE_def
    by (auto split: if_splits)
  then show ?thesis by (simp add: uart_rx_byte_def UART_BUFFER_SIZE_def)
qed

lemma rx_byte_room_eq:
  assumes "uart_wf q" "uart_count q < 511"
  shows "uart_rx_byte c q =
      q\<lparr>uart_buffer := (uart_buffer q)[uart_head q := c], uart_head := (uart_head q + 1) mod 512\<rparr>"
proof -
  have ne: "(uart_head q + 1) mod 512 \<noteq> uart_tail q"
    using assms uart_count_alt [of q] next_index [of "uart_head q"]
    unfolding uart_wf_def UART_BUFFER_SIZE_def
    by (auto split: if_splits)
  then show ?thesis
    by (simp add: uart_rx_byte_def UART_BUFFER_SIZE_def)
qed

lemma rx_byte_room_wf:
  assumes "uart_wf q" "uart_count q < 511"
  shows "uart_wf (uart_rx_byte c q)"
  using assms(1) unfolding rx_byte_room_eq [OF assms] uart_wf_def UART_BUFFER_SIZE_def by simp

lemma rx_byte_room_count:
  assumes "uart_wf q" "uart_count q < 511"
  shows "uart_count (uart_rx_byte c q) = Suc (uart_count q)"
proof -
  have wf': "uart_wf (uart_rx_byte c q)" by (rule rx_byte_room_wf [OF assms])
  have h: "uart_head (uart_rx_byte c q) = (if uart_head q = 511 then 0 else uart_head q + 1)"
    and t: "uart_tail (uart_rx_byte c q) = uart_tail q"
    using assms(1) unfolding rx_byte_room_eq [OF assms] uart_wf_def UART_BUFFER_SIZE_def
    by simp_all
  show ?thesis
    using assms uart_count_alt [OF assms(1)] uart_count_alt [OF wf'] h t
    unfolding uart_wf_def UART_BUFFER_SIZE_def
    by (auto split: if_splits)
qed

lemma ring_positions:
  assumes "uart_wf q"
  shows "(uart_tail q + uart_count q) mod 512 = uart_head q"
    and "i < uart_count q \<Longrightarrow> uart_head q \<noteq> (uart_tail q + i) mod 512"
proof -
  have c: "uart_count q < 512" by (rule uart_count_less)
  show "(uart_tail q + uart_count q) mod 512 = uart_head q"
    using assms uart_count_alt [OF assms] ring_add [of "uart_tail q" "uart_count q"] c
    unfolding uart_wf_def UART_BUFFER_SIZE_def
    by (auto split: if_splits)
  assume "i < uart_count q"
  then show "uart_head q \<noteq> (uart_tail q + i) mod 512"
    using assms uart_count_alt [OF assms] ring_add [of "uart_tail q" i] c
    unfolding uart_wf_def UART_BUFFER_SIZE_def
    by (auto split: if_splits)
qed

lemma rx_byte_room_contents:
  assumes "uart_wf q" "uart_count q < 511"
  shows "uart_contents (uart_rx_byte c q) = uart_contents q @ [c]"
proof -
  have len: "uart_head q < length (uart_buffer q)"
    using assms(1) unfolding uart_wf_def by simp
  show ?thesis
    unfolding uart_contents_def rx_byte_room_count [OF assms]
    unfolding rx_byte_room_eq [OF assms]
    using ring_positions [OF assms(1)] len
    by (simp add: UART_BUFFER_SIZE_def)
qed

lemma rx_byte_room_overflow:
  assumes "uart_wf q" "uart_count q < 511"
  shows "uart_overflow (uart_rx_byte c q) = uart_overflow q"
  unfolding rx_byte_room_eq [OF assms] by simp

lemma rx_byte_tail: "uart_tail (uart_rx_byte c q) = uart_tail q"
  by (simp add: uart_rx_byte_def Let_def)

lemma rx_byte_wf: "uart_wf q \<Longrightarrow> uart_wf (uart_rx_byte c q)"
  using rx_byte_room_wf [of q c] rx_byte_full [of q c] uart_count_less [of q]
  by (cases "uart_count q = 511") (auto simp add: uart_wf_def)

lemma on_uart_rx_effect:
  "uart_wf q \<Longrightarrow>
     uart_wf (on_uart_rx bs q) \<and>
     uart_contents (on_uart_rx bs q) = uart_contents q @ take (511 - uart_count q) bs \<and>
     uart_overflow (on_uart_rx bs q) = (uart_overflow q \<or> 511 - uart_count q < length bs)"
proof (induction bs arbitrary: q)
  case Nil
  then show ?case by (simp add: on_uart_rx_def)
next
  case (Cons c bs)
  have step: "on_uart_rx (c # bs) q = on_uart_rx bs (uart_rx_byte c q)"
    by (simp add: on_uart_rx_def)
  show ?case
  proof (cases "uart_count q = 511")
    case True
    have full: "uart_rx_byte c q = q\<lparr>uart_overflow := True\<rparr>"
      by (rule rx_byte_full [OF Cons.prems True])
    have wf': "uart_wf (q\<lparr>uart_overflow := True\<rparr>)"
      using Cons.prems by (simp add: uart_wf_def)
    have same: "uart_count (q\<lparr>uart_overflow := True\<rparr>) = 511"
      "uart_contents (q\<lparr>uart_overflow := True\<rparr>) = uart_contents q"
      using True by (simp_all add: uart_count_def uart_contents_def)
    show ?thesis
      using Cons.IH [OF wf'] True unfolding step full same by simp
  next
    case False
    then have room: "uart_count q < 511" using uart_count_less [of q] by simp
    note r = rx_byte_room_wf [OF Cons.prems room, of c] rx_byte_room_count [OF Cons.prems room, of c]
      rx_byte_room_contents [OF Cons.prems room, of c] rx_byte_room_overflow [OF Cons.prems room, of c]
    have "511 - uart_count q = Suc (511 - Suc (uart_count q))" using room by simp
    then show ?thesis
      using Cons.IH [OF r(1)] unfolding step r(2,3,4) by auto
  qed
qed

lemma consume_effect:
  assumes "uart_wf q" "uart_tail q \<noteq> uart_head q"
  shows "uart_wf (fst (uart_consume handler (q, s)))"
    and "uart_count (fst (uart_consume handler (q, s))) = uart_count q - 1"
    and "uart_contents q = uart_buffer q ! uart_tail q # uart_contents (fst (uart_consume handler (q, s)))"
    and "snd (uart_consume handler (q, s)) = handler (uart_buffer q ! uart_tail q) s"
    and "uart_overflow (fst (uart_consume handler (q, s))) = (uart_overflow q \<and> \<not> 128 < uart_count q - 1)"
proof -
  define q1 where "q1 = q\<lparr>uart_tail := (uart_tail q + 1) mod 512\<rparr>"
  have wf1: "uart_wf q1" using assms(1) unfolding q1_def uart_wf_def UART_BUFFER_SIZE_def by simp
  have pos: "0 < uart_count q" using assms uart_count_empty [of q] by auto
  have c1: "uart_count q1 = uart_count q - 1"
    using assms pos uart_count_alt [OF assms(1)] uart_count_alt [OF wf1] next_index [of "uart_tail q"]
    unfolding q1_def uart_wf_def UART_BUFFER_SIZE_def
    by (auto split: if_splits)
  have lv: "uart_level q1 = int (uart_count q - 1)"
    using uart_level_count [OF wf1] c1 by simp
  have fst_eq: "fst (uart_consume handler (q, s)) =
      (if uart_overflow q \<and> 128 < uart_count q - 1 then q1\<lparr>uart_overflow := False\<rparr> else q1)"
    using lv [unfolded q1_def]
    by (auto simp add: uart_consume_def Let_def UART_BUFFER_SIZE_def q1_def)
  show "uart_wf (fst (uart_consume handler (q, s)))"
    unfolding fst_eq using wf1 by (simp add: uart_wf_def)
  show "uart_count (fst (uart_consume handler (q, s))) = uart_count q - 1"
    unfolding fst_eq using c1 by (simp add: uart_count_def)
  show "snd (uart_consume handler (q, s)) = handler (uart_buffer q ! uart_tail q) s"
    by (simp add: uart_consume_def Let_def)
  show "uart_overflow (fst (uart_consume handler (q, s))) = (uart_overflow q \<and> \<not> 128 < uart_count q - 1)"
    unfolding fst_eq by (auto simp add: q1_def)
  have idx: "\<And>i. i < uart_count q - 1 \<Longrightarrow>
      ((uart_tail q + 1) mod 512 + i) mod 512 = (uart_tail q + Suc i) mod 512"
    by (simp add: mod_add_left_eq)
  have "uart_contents q1 =
      map (\<lambda>i. uart_buffer q ! ((uart_tail q + Suc i) mod 512)) [0..<uart_count q - 1]"
    unfolding uart_contents_def c1 by (simp add: q1_def UART_BUFFER_SIZE_def mod_add_left_eq)
  also have "\<dots> = map (\<lambda>i. uart_buffer q ! ((uart_tail q + i) mod 512)) (map Suc [0..<uart_count q - 1])"
    by (simp add: comp_def)
  also have "map Suc [0..<uart_count q - 1] = [1..<uart_count q]"
    using pos by (simp add: map_Suc_upt)
  finally have tl: "uart_contents q1 =
      map (\<lambda>i. uart_buffer q ! ((uart_tail q + i) mod 512)) [1..<uart_count q]" .
  have "uart_contents q = uart_buffer q ! uart_tail q # uart_contents q1"
    unfolding tl unfolding uart_contents_def UART_BUFFER_SIZE_def
    using pos assms(1) by (simp add: upt_conv_Cons uart_wf_def UART_BUFFER_SIZE_def)
  moreover have "uart_contents (fst (uart_consume handler (q, s))) = uart_contents q1"
    unfolding fst_eq by (simp add: uart_contents_def uart_count_def)
  ultimately show "uart_contents q = uart_buffer q ! uart_tail q # uart_contents (fst (uart_consume handler (q, s)))"
    by simp
qed

lemma drain_effect:
  "uart_wf q \<Longrightarrow> uart_count q = n \<Longrightarrow>
     \<exists>q'. process_uart_buffer handler (q, s) = Some (q', fold handler (uart_contents q) s) \<and>
          uart_wf q' \<and> uart_tail q' = uart_head q'"
proof (induction n arbitrary: q s)
  case 0
  then have e: "uart_tail q = uart_head q" using uart_count_empty [of q] by simp
  have "uart_contents q = []" using 0 by (simp add: uart_contents_def)
  with e 0 show ?case
    by (subst process_uart_buffer.simps) simp
next
  case (Suc n)
  then have ne: "uart_tail q \<noteq> uart_head q" using uart_count_empty [of q] by auto
  note ce = consume_effect [OF Suc.prems(1) ne, of handler s]
  obtain q1 s1 where qs: "uart_consume handler (q, s) = (q1, s1)" by force
  have "uart_count q1 = n" using ce(2) qs Suc.prems(2) by simp
  moreover have "uart_wf q1" using ce(1) qs by simp
  ultimately obtain q' where
    d: "process_uart_buffer handler (q1, s1) = Some (q', fold handler (uart_contents q1) s1)"
      "uart_wf q'" "uart_tail q' = uart_head q'"
    using Suc.IH by blast
  have "process_uart_buffer handler (q, s) = process_uart_buffer handler (q1, s1)"
    using ne qs by (subst process_uart_buffer.simps) simp
  moreover have "fold handler (uart_contents q) s = fold handler (uart_contents q1) s1"
    using ce(3,4) qs by simp
  ultimately show ?case using d by auto
qed

lemma length_uart_contents: "length (uart_contents q) = uart_count q"
  by (simp add: uart_contents_def)

lemma fold_received: "fold received bs acc = acc @ bs"
  by (induction bs arbitrary: acc) (simp_all add: received_def)

lemma uart_init_empty:
  "uart_wf uart_init" "uart_count uart_init = 0" "uart_contents uart_init = []"
  "\<not> uart_overflow uart_init"
  by (simp_all add: uart_wf_def uart_count_def uart_contents_def uart_init_def UART_BUFFER_SIZE_def)

text \<open>Filling an empty buffer and draining it: the first 511 bytes arrive, in order.\<close>

lemma fill_then_drain:
  assumes "uart_wf q" and "uart_tail q = uart_head q"
  shows "\<exists>q'. process_uart_buffer received (on_uart_rx bs q, []) = Some (q', take 511 bs)"
    and "uart_overflow (on_uart_rx bs q) = (uart_overflow q \<or> 511 < length bs)"
    and "uart_count (on_uart_rx bs q) = min 511 (length bs)"
proof -
  have c0: "uart_count q = 0" using assms uart_count_empty [of q] by simp
  then have e: "uart_contents q = []" by (simp add: uart_contents_def)
  note fx = on_uart_rx_effect [OF assms(1), of bs, unfolded c0 e]
  from fx have wf: "uart_wf (on_uart_rx bs q)"
    and co: "uart_contents (on_uart_rx bs q) = take 511 bs" by simp_all
  show "\<exists>q'. process_uart_buffer received (on_uart_rx bs q, []) = Some (q', take 511 bs)"
    using drain_effect [OF wf refl, of received "[]"] unfolding co fold_received by auto
  show "uart_overflow (on_uart_rx bs q) = (uart_overflow q \<or> 511 < length bs)"
    using fx by simp
  show "uart_count (on_uart_rx bs q) = min 511 (length bs)"
    using length_uart_contents [of "on_uart_rx bs q"] unfolding co by simp
qed

text \<open>
  C2 (as amended). Queue conservation: pushing \<open>N\<close> bytes into the empty ring buffer and
  then draining it delivers the same \<open>N\<close> bytes in the same order when
  \<open>N < UART_BUFFER_SIZE\<close> (at most 511 bytes), with the overflow flag still clear; when
  \<open>UART_BUFFER_SIZE\<close> or more bytes are pushed without draining, the overflow flag is set
  and the drain delivers exactly the first \<open>UART_BUFFER_SIZE - 1\<close> bytes, in order, each
  once.
\<close>

theorem queue_conservation:
  assumes "uart_wf q" and "uart_tail q = uart_head q" and "\<not> uart_overflow q"
  shows "(length bs < UART_BUFFER_SIZE \<longrightarrow>
            \<not> uart_overflow (on_uart_rx bs q) \<and>
            (\<exists>q'. process_uart_buffer received (on_uart_rx bs q, []) = Some (q', bs))) \<and>
         (length bs \<ge> UART_BUFFER_SIZE \<longrightarrow>
            uart_overflow (on_uart_rx bs q) \<and>
            (\<exists>q'. process_uart_buffer received (on_uart_rx bs q, [])
                    = Some (q', take (UART_BUFFER_SIZE - 1) bs)))"
  using fill_then_drain(1,2) [OF assms(1,2), of bs] assms(3)
  by (auto simp add: UART_BUFFER_SIZE_def)

theorem queue_conservation_witness:
  "(\<not> uart_overflow (on_uart_rx [0x48, 0x49] uart_init) \<and>
    (\<exists>q'. process_uart_buffer received (on_uart_rx [0x48, 0x49] uart_init, [])
            = Some (q', [0x48, 0x49]))) \<and>
   (uart_overflow (on_uart_rx (replicate 600 0x41) uart_init) \<and>
    (\<exists>q'. process_uart_buffer received (on_uart_rx (replicate 600 0x41) uart_init, [])
            = Some (q', replicate 511 0x41)))"
  using queue_conservation [of uart_init "[0x48, 0x49]"]
    queue_conservation [of uart_init "replicate 600 0x41"]
  by (simp add: uart_wf_def uart_init_def UART_BUFFER_SIZE_def)

text \<open>
  The claim as stated fails at \<open>N = UART_BUFFER_SIZE\<close>: of 512 bytes pushed into the
  empty buffer the drain delivers 511, and the overflow flag is set.
\<close>

theorem queue_conservation_counterexample:
  "length (replicate 512 (0x41 :: byte)) \<le> UART_BUFFER_SIZE \<and>
   uart_overflow (on_uart_rx (replicate 512 0x41) uart_init) \<and>
   map_option snd (process_uart_buffer received (on_uart_rx (replicate 512 0x41) uart_init, []))
     = Some (replicate 511 0x41) \<and>
   replicate 511 (0x41 :: byte) \<noteq> replicate 512 0x41"
proof -
  have e: "uart_tail uart_init = uart_head uart_init" by (simp add: uart_init_def)
  obtain q' where "process_uart_buffer received (on_uart_rx (replicate 512 0x41) uart_init, [])
      = Some (q', take 511 (replicate 512 0x41))"
    using fill_then_drain(1) [OF uart_init_empty(1) e] by blast
  moreover have "uart_overflow (on_uart_rx (replicate 512 0x41) uart_init)"
    using fill_then_drain(2) [OF uart_init_empty(1) e, of "replicate 512 0x41"] by simp
  moreover have "replicate 511 (0x41 :: byte) \<noteq> replicate 512 0x41"
    using arg_cong [of "replicate 511 (0x41 :: byte)" "replicate 512 0x41" length] by auto
  ultimately show ?thesis by (simp add: UART_BUFFER_SIZE_def)
qed

text \<open>
  What one turn of the consumer's loop does to the overflow flag: it stays set exactly
  when the flag was set and at most 128 bytes remain buffered after the turn.
\<close>

lemma consume_overflow:
  assumes "uart_wf q" and "uart_tail q \<noteq> uart_head q"
  shows "uart_overflow (fst (uart_consume handler (q, s)))
           \<longleftrightarrow> uart_overflow q \<and> uart_level (fst (uart_consume handler (q, s))) \<le> 128"
  using consume_effect(1,2,5) [OF assms, of handler s]
    uart_level_count [of "fst (uart_consume handler (q, s))"]
  by auto

text \<open>
  C5 (the code at the failing input). After 512 bytes were pushed into the empty buffer
  the overflow flag is set and 511 bytes are buffered; the first turn of the consumer's
  loop clears the flag although 510 bytes, more than a quarter of the capacity, remain.
\<close>

theorem overflow_cleared_while_full:
  "uart_overflow (on_uart_rx (replicate 512 0x41) uart_init) \<and>
   \<not> uart_overflow (fst (uart_consume received (on_uart_rx (replicate 512 0x41) uart_init, []))) \<and>
   uart_level (fst (uart_consume received (on_uart_rx (replicate 512 0x41) uart_init, []))) = 510 \<and>
   510 > int (UART_BUFFER_SIZE div 4)"
proof -
  define q where "q = on_uart_rx (replicate 512 (0x41 :: byte)) uart_init"
  have e: "uart_tail uart_init = uart_head uart_init" by (simp add: uart_init_def)
  have wf: "uart_wf q"
    using on_uart_rx_effect [OF uart_init_empty(1), of "replicate 512 0x41"] by (simp add: q_def)
  have ov: "uart_overflow q"
    using fill_then_drain(2) [OF uart_init_empty(1) e, of "replicate 512 0x41"] by (simp add: q_def)
  have cnt: "uart_count q = 511"
    using fill_then_drain(3) [OF uart_init_empty(1) e, of "replicate 512 0x41"] by (simp add: q_def)
  have ne: "uart_tail q \<noteq> uart_head q"
    using cnt uart_count_empty [OF wf] by auto
  note ce = consume_effect(1,2,5) [OF wf ne, of received "[]"]
  have "uart_level (fst (uart_consume received (q, []))) = 510"
    using uart_level_count [OF ce(1)] ce(2) cnt by simp
  moreover have "\<not> uart_overflow (fst (uart_consume received (q, [])))"
    using ce(3) cnt by simp
  ultimately show ?thesis using ov unfolding q_def by (simp add: UART_BUFFER_SIZE_def)
qed

section \<open>Proofs: the terminal state as record updates\<close>

text \<open>
  Each function of the terminal changes a few globals. The lemmas of this section give
  the changes field by field, so that later proofs read off a field without unfolding
  the drawing code.
\<close>

lemma request_swap_nf:
  "request_swap s = s\<lparr>swap_pending := (swap_queued s \<longrightarrow> swap_pending s), swap_queued := True\<rparr>"
  by (cases "swap_queued s") (simp_all add: request_swap_def)

lemma safe_request_swap_nf:
  "safe_request_swap s =
     s\<lparr>charbuf_front := (if swap_due s then charbuf_back s else charbuf_front s),
       colourbuf_front := (if swap_due s then colourbuf_back s else colourbuf_front s),
       swap_pending := (\<not> swap_due s \<and> swap_pending s),
       swap_queued := (\<not> swap_due s \<and> swap_queued s),
       scroll_settled := (swap_due s \<or> scroll_settled s),
       safe_to_scroll := (swap_due s \<or> safe_to_scroll s),
       buffer_dirty := False\<rparr>"
  by (cases "swap_due s")
    (auto simp add: safe_request_swap_def swap_due_def perform_swap_def request_swap_nf)

lemma set_char_nf:
  "set_char x y c s = s\<lparr>charbuf_back := charbuf_set x y c (charbuf_back s)\<rparr>"
  by (simp add: set_char_def with_back_def put_char_def)

lemma set_colour_nf:
  "set_colour x y fg bg s = s\<lparr>colourbuf_back := colourbuf_set x y fg bg (colourbuf_back s)\<rparr>"
  by (simp add: set_colour_def with_back_def put_colour_def)

lemma with_back_nf:
  "with_back f s =
     s\<lparr>charbuf_back := fst (f (charbuf_back s, colourbuf_back s)),
       colourbuf_back := snd (f (charbuf_back s, colourbuf_back s))\<rparr>"
  by (simp add: with_back_def Let_def)

lemma remove_cursor_nf:
  "remove_cursor s =
     s\<lparr>charbuf_back := fst (unpaint s), colourbuf_back := snd (unpaint s),
       cursor_drawn := False, buffer_dirty := (cursor_drawn s \<or> buffer_dirty s)\<rparr>"
  by (cases "cursor_drawn s")
    (simp_all add: remove_cursor_def set_char_nf set_colour_nf unpaint_def put_char_def
      put_colour_def)

lemma cond_skip_lf:
  "(if skip_next_lf t \<and> P then t\<lparr>skip_next_lf := False\<rparr> else t)
     = t\<lparr>skip_next_lf := (skip_next_lf t \<and> \<not> P)\<rparr>"
  by (cases t) auto

lemma cond_skip_cr:
  "(if skip_next_cr t \<and> P then t\<lparr>skip_next_cr := False\<rparr> else t)
     = t\<lparr>skip_next_cr := (skip_next_cr t \<and> \<not> P)\<rparr>"
  by (cases t) auto

lemma handle_char_other:
  "c \<noteq> 0x0D \<Longrightarrow> c \<noteq> 0x0A \<Longrightarrow> handle_char oob c s = dispatch oob c (prologue s)"
  unfolding handle_char_def Let_def cond_skip_lf cond_skip_cr
  by (simp add: prologue_def dispatch_def remove_cursor_nf)

lemma handle_char_cr:
  "handle_char oob 0x0D s =
     (if suppress_next_cr s
      then (remove_cursor (s\<lparr>input_active := True\<rparr>))\<lparr>suppress_next_cr := False\<rparr>
      else if skip_next_cr s
      then (remove_cursor (s\<lparr>input_active := True\<rparr>))\<lparr>suppress_next_cr := False, skip_next_cr := False\<rparr>
      else dispatch oob 0x0D (prologue s))"
  unfolding handle_char_def Let_def cond_skip_lf cond_skip_cr
  by (simp add: prologue_def dispatch_def remove_cursor_nf)

lemma handle_char_lf:
  "handle_char oob 0x0A s =
     (if skip_next_lf s
      then (remove_cursor (s\<lparr>input_active := True\<rparr>))\<lparr>suppress_next_cr := False, skip_next_lf := False\<rparr>
      else dispatch oob 0x0A (prologue s))"
  unfolding handle_char_def Let_def cond_skip_lf cond_skip_cr
  by (simp add: prologue_def dispatch_def remove_cursor_nf)

lemma scroll_up_nf:
  "scroll_up s =
     s\<lparr>charbuf_back := fst (scroll_bufs (current_fg s) (current_bg s) (charbuf_back s, colourbuf_back s)),
       colourbuf_back := snd (scroll_bufs (current_fg s) (current_bg s) (charbuf_back s, colourbuf_back s)),
       charbuf_front := fst (scroll_bufs (current_fg s) (current_bg s) (charbuf_back s, colourbuf_back s)),
       colourbuf_front := snd (scroll_bufs (current_fg s) (current_bg s) (charbuf_back s, colourbuf_back s)),
       swap_pending := False, swap_queued := False, scroll_settled := True,
       safe_to_scroll := True, buffer_dirty := False\<rparr>"
  by (simp add: scroll_up_def with_back_nf safe_request_swap_nf swap_due_def)

lemma new_line_nf:
  "new_line s =
     s\<lparr>cursor_x := 0,
       cursor_y := (if wraps_line s then of_nat (CHAR_ROWS - 1) else cursor_y s + 1),
       charbuf_back := fst (back_after_line s),
       colourbuf_back := snd (back_after_line s),
       charbuf_front := fst (back_after_line s),
       colourbuf_front := snd (back_after_line s),
       swap_pending := False, swap_queued := False, scroll_settled := True,
       safe_to_scroll := True, buffer_dirty := False\<rparr>"
  by (cases "wraps_line s")
    (simp_all add: new_line_def Let_def scroll_up_nf safe_request_swap_nf swap_due_def
      wraps_line_def back_after_line_def)

lemma clear_screen_nf:
  "clear_screen s =
     s\<lparr>charbuf_back := fst (clear_bufs (current_fg s) (current_bg s) (charbuf_back s, colourbuf_back s)),
       colourbuf_back := snd (clear_bufs (current_fg s) (current_bg s) (charbuf_back s, colourbuf_back s)),
       cursor_x := 0, cursor_y := 0,
       swap_pending := (swap_queued s \<longrightarrow> swap_pending s), swap_queued := True\<rparr>"
  by (simp add: clear_screen_def with_back_nf request_swap_nf)

lemma unpaint_input_active: "unpaint (s\<lparr>input_active := v\<rparr>) = unpaint s"
  by (simp add: unpaint_def)

lemma unpaint_not_drawn: "\<not> cursor_drawn s \<Longrightarrow> unpaint s = (charbuf_back s, colourbuf_back s)"
  by (simp add: unpaint_def)

lemma prologue_nf:
  "prologue s =
     s\<lparr>input_active := True, charbuf_back := fst (unpaint s), colourbuf_back := snd (unpaint s),
       cursor_drawn := False, buffer_dirty := (cursor_drawn s \<or> buffer_dirty s),
       suppress_next_cr := False, skip_next_lf := False, skip_next_cr := False\<rparr>"
  by (simp add: prologue_def remove_cursor_nf unpaint_input_active)

lemma uint_of_int_uint: "uint_of_int (uint (w :: 16 word)) = unat w"
proof -
  have "uint w < 2 ^ 32" using uint_lt2p [of w] by simp
  then have "uint w mod 2 ^ 32 = uint w" by (simp add: mod_pos_pos_trivial)
  then show ?thesis unfolding uint_of_int_def by (simp only: nat_uint_eq)
qed

lemma paint_cursor_nf:
  "paint_cursor s =
     s\<lparr>charbuf_back :=
         fst (painted (uint_of_int (cursor_draw_x s)) (uint_of_int (cursor_draw_y s))
                (cursor_glyph (current_cursor s)) (current_fg s) (current_bg s)
                (charbuf_back s, colourbuf_back s)),
       colourbuf_back :=
         snd (painted (uint_of_int (cursor_draw_x s)) (uint_of_int (cursor_draw_y s))
                (cursor_glyph (current_cursor s)) (current_fg s) (current_bg s)
                (charbuf_back s, colourbuf_back s)),
       cursor_drawn := True\<rparr>"
  by (simp add: paint_cursor_def Let_def set_char_nf set_colour_nf painted_def put_char_def
      put_colour_def)

lemma unpaint_alt:
  "unpaint s =
     (if cursor_drawn s
      then (charbuf_set (uint_of_int (cursor_draw_x s)) (uint_of_int (cursor_draw_y s))
              (saved_cursor_char s) (charbuf_back s),
            colourbuf_set (uint_of_int (cursor_draw_x s)) (uint_of_int (cursor_draw_y s))
              (saved_cursor_fg s) (current_bg s) (colourbuf_back s))
      else (charbuf_back s, colourbuf_back s))"
  by (simp add: unpaint_def put_char_def put_colour_def)

lemma redraw_cursor_off:
  "\<not> cursor_visible s \<Longrightarrow> redraw_cursor oob s = s"
  "cursor_menu_mode s \<Longrightarrow> redraw_cursor oob s = s"
  by (simp_all add: redraw_cursor_def)

lemma redraw_cursor_on:
  assumes "cursor_visible s" "\<not> cursor_menu_mode s"
  shows "redraw_cursor oob s =
        s\<lparr>cursor_draw_x := uint (cursor_x s), cursor_draw_y := uint (cursor_y s),
          saved_cursor_char :=
            read_charbuf oob (fst (unpaint s)) (uint (cursor_x s) + uint (cursor_y s) * int CHAR_COLS),
          charbuf_back :=
            fst (painted (unat (cursor_x s)) (unat (cursor_y s)) (cursor_glyph (current_cursor s))
                   (current_fg s) (current_bg s) (unpaint s)),
          colourbuf_back :=
            snd (painted (unat (cursor_x s)) (unat (cursor_y s)) (cursor_glyph (current_cursor s))
                   (current_fg s) (current_bg s) (unpaint s)),
          cursor_drawn := True, buffer_dirty := True\<rparr>"
proof (cases "cursor_drawn s")
  case True
  then show ?thesis
    using assms
    by (simp add: redraw_cursor_def Let_def paint_cursor_nf set_char_nf set_colour_nf
      unpaint_alt uint_of_int_uint)
next
  case False
  then show ?thesis
    using assms
    by (simp add: redraw_cursor_def Let_def paint_cursor_nf unpaint_alt uint_of_int_uint)
qed

lemma handle_key_cr:
  "handle_key 0x0D s = (new_line s)\<lparr>skip_next_lf := True, suppress_next_cr := True\<rparr>"
  by (simp add: handle_key_def)

lemma handle_key_lf:
  "handle_key 0x0A s = (new_line s)\<lparr>skip_next_cr := True\<rparr>"
  by (simp add: handle_key_def)

lemma dispatch_normal:
  "normal_mode s \<Longrightarrow> dispatch oob c s = safe_request_swap (redraw_cursor oob (handle_key c s))"
  by (simp add: dispatch_def normal_mode_def)

lemma normal_mode_prologue: "normal_mode (prologue s) = normal_mode s"
  by (simp add: normal_mode_def prologue_nf)

lemma cr_in_normal_mode:
  assumes "normal_mode s" "\<not> skip_next_cr s" "\<not> suppress_next_cr s"
  shows "handle_char oob 0x0D s =
           safe_request_swap (redraw_cursor oob
             ((new_line (prologue s))\<lparr>skip_next_lf := True, suppress_next_cr := True\<rparr>))"
  using assms
  by (simp add: handle_char_cr dispatch_normal normal_mode_prologue handle_key_cr)

lemma redraw_cursor_nf:
  "redraw_cursor oob s =
     s\<lparr>cursor_draw_x := (if redraw_on s then uint (cursor_x s) else cursor_draw_x s),
       cursor_draw_y := (if redraw_on s then uint (cursor_y s) else cursor_draw_y s),
       saved_cursor_char :=
         (if redraw_on s
          then read_charbuf oob (fst (unpaint s)) (uint (cursor_x s) + uint (cursor_y s) * int CHAR_COLS)
          else saved_cursor_char s),
       charbuf_back :=
         (if redraw_on s
          then fst (painted (unat (cursor_x s)) (unat (cursor_y s)) (cursor_glyph (current_cursor s))
                      (current_fg s) (current_bg s) (unpaint s))
          else charbuf_back s),
       colourbuf_back :=
         (if redraw_on s
          then snd (painted (unat (cursor_x s)) (unat (cursor_y s)) (cursor_glyph (current_cursor s))
                      (current_fg s) (current_bg s) (unpaint s))
          else colourbuf_back s),
       cursor_drawn := (redraw_on s \<or> cursor_drawn s),
       buffer_dirty := (redraw_on s \<or> buffer_dirty s)\<rparr>"
proof (cases "redraw_on s")
  case True
  then have "cursor_visible s" "\<not> cursor_menu_mode s" by (simp_all add: redraw_on_def)
  from redraw_cursor_on [OF this] True show ?thesis by simp
next
  case False
  then have "\<not> cursor_visible s \<or> cursor_menu_mode s" by (simp add: redraw_on_def)
  then have "redraw_cursor oob s = s" using redraw_cursor_off by blast
  with False show ?thesis by simp
qed

lemma input_active_idem: "input_active s \<Longrightarrow> s\<lparr>input_active := True\<rparr> = s"
  by (cases s) simp


text \<open>The state in which the main loop starts.\<close>

lemma main_init_fields:
  "normal_mode main_init" "\<not> skip_next_lf main_init" "\<not> skip_next_cr main_init"
  "\<not> suppress_next_cr main_init" "cursor_x main_init = 0" "cursor_y main_init = 0"
  "cursor_visible main_init" "\<not> cursor_drawn main_init" "\<not> escape_mode main_init"
  "\<not> ansi_mode main_init" "current_fg main_init = 12" "current_bg main_init = 0"
  "\<not> fg_color_menu_mode main_init" "\<not> bg_color_menu_mode main_init"
  "\<not> cursor_menu_mode main_init" "\<not> theme_select_mode main_init"
  "current_cursor main_init = CURSOR_APPLE_I" "cursor_blink_counter main_init = 0"
  "saved_cursor_x main_init = 0" "saved_cursor_y main_init = 0"
  "ansi_buf_len main_init = 0" "ansi_param_count main_init = 0"
  "length (ansi_buffer main_init) = 16" "length (ansi_params main_init) = 4"
  "color_menu_buf_len main_init = 0" "length (color_menu_buf main_init) = 3"
  by (simp_all add: main_init_def static_init_def clear_screen_nf perform_swap_def
      normal_mode_def ANSI_PARAM_MAX_def)

lemma restore_menu_region_nf:
  "restore_menu_region s =
     s\<lparr>charbuf_back := fst (restore_region (saved_chars s, saved_fg s, saved_bg s)
                              (unat (menu_left s)) (unat (menu_top s)) (charbuf_back s, colourbuf_back s)),
       colourbuf_back := snd (restore_region (saved_chars s, saved_fg s, saved_bg s)
                              (unat (menu_left s)) (unat (menu_top s)) (charbuf_back s, colourbuf_back s)),
       charbuf_front := fst (restore_region (saved_chars s, saved_fg s, saved_bg s)
                              (unat (menu_left s)) (unat (menu_top s)) (charbuf_back s, colourbuf_back s)),
       colourbuf_front := snd (restore_region (saved_chars s, saved_fg s, saved_bg s)
                              (unat (menu_left s)) (unat (menu_top s)) (charbuf_back s, colourbuf_back s)),
       swap_pending := False, swap_queued := False, scroll_settled := True,
       safe_to_scroll := True, buffer_dirty := False\<rparr>"
  by (simp add: restore_menu_region_def with_back_nf safe_request_swap_nf swap_due_def)















text \<open>Definitions to unfold when a run on a given state is computed.\<close>

lemma replicate_16: "replicate 16 x = [x,x,x,x,x,x,x,x,x,x,x,x,x,x,x,x]"
  by (simp add: numeral_eq_Suc)

lemma replicate_4: "replicate 4 x = [x,x,x,x]"
  by (simp add: numeral_eq_Suc)

lemmas run_defs =
  with_back_def reset_ansi_state_def request_swap_def perform_swap_def safe_request_swap_def
  set_char_def set_colour_def clear_screen_def scroll_up_def new_line_def
  process_ansi_code_def process_ansi_sequence_def csi_count_def
  save_menu_region_def draw_color_menu_def restore_menu_region_def draw_cursor_menu_def
  remove_cursor_def terminate_ansi_buffer_def commit_ansi_param_def handle_escape_def
  color_menu_num_def handle_fg_color_menu_def handle_bg_color_menu_def
  handle_cursor_menu_def handle_theme_select_def handle_key_def
  cursor_menu_choice_def theme_choice_def
  paint_cursor_def redraw_cursor_def handle_char_def feed_def
  main_init_def static_init_def Let_def replicate_16 replicate_4 ANSI_PARAM_MAX_def
  atoi_def cstring_def isspace_def isdigit_def grid_consts

section \<open>Proofs: the escape parser\<close>

lemma isdigit_unat: "isdigit c \<Longrightarrow> unat (c - 0x30) = unat c - 48"
  by (simp add: isdigit_def unat_sub)

lemma digits_value_foldl:
  "list_all isdigit ds \<Longrightarrow> digits_value acc ds = foldl (\<lambda>a c. a * 10 + (unat c - 48)) acc ds"
  by (induction ds arbitrary: acc) (simp_all add: isdigit_unat)

lemma digits_value_decimal: "list_all isdigit ds \<Longrightarrow> digits_value 0 ds = decimal_value ds"
  by (simp add: digits_value_foldl decimal_value_def)

lemma digit_facts:
  assumes "isdigit c"
  shows "c \<noteq> 0" "\<not> isspace c" "c \<noteq> 0x2D" "c \<noteq> 0x2B" "c \<noteq> 0x0D" "c \<noteq> 0x0A"
    "c \<noteq> 0x5B" "c \<noteq> 0x3B" "c \<ge> 0x30" "c \<le> 0x39"
  using assms by (auto simp add: isdigit_def isspace_def word_le_nat_alt)

lemma cstring_digits:
  "list_all isdigit ds \<Longrightarrow> cstring (ds @ 0 # rest) = ds"
  unfolding cstring_def
  by (induction ds) (simp_all add: digit_facts(1))

lemma atoi_digits:
  assumes "list_all isdigit ds" "decimal_value ds \<le> 2 ^ 31 - 1"
  shows "atoi ds = int (decimal_value ds)"
proof (cases ds)
  case Nil
  then show ?thesis by (simp add: atoi_def decimal_value_def)
next
  case (Cons c cs)
  then have c: "isdigit c" using assms(1) by simp
  have "dropWhile isspace ds = ds" using Cons digit_facts(2) [OF c] by simp
  moreover have "hd ds \<noteq> 0x2D" "hd ds \<noteq> 0x2B" using Cons digit_facts(3,4) [OF c] by simp_all
  ultimately have "atoi ds = (if int (digits_value 0 ds) > 2 ^ 31 - 1 then 2 ^ 31 - 1
                              else int (digits_value 0 ds))"
    by (simp add: atoi_def Let_def)
  moreover have "int (decimal_value ds) \<le> 2 ^ 31 - 1"
    using assms(2) by (simp add: of_nat_diff le_diff_conv)
  ultimately show ?thesis
    using digits_value_decimal [OF assms(1)] by simp
qed


lemma parser_prologue: "parser_of (prologue s) = parser_of s"
  by (simp add: parser_of_def prologue_nf)

lemma escape_dispatch: "escape_mode s \<Longrightarrow> dispatch oob c s = handle_escape c s"
  by (simp add: dispatch_def)

lemma in_escape:
  assumes "escape_mode s" "c \<noteq> 0x0D" "c \<noteq> 0x0A"
  shows "handle_char oob c s = handle_escape c (prologue s)"
  using assms by (simp add: handle_char_other escape_dispatch prologue_nf)

lemma parser_bracket:
  assumes "escape_mode s"
  shows "parser_of (handle_char oob 0x5B s) = (parser_of s)\<lparr>p_ansi := True, p_len := 0, p_count := 0\<rparr>"
  using assms
  by (simp add: in_escape handle_escape_def reset_ansi_state_def parser_of_def prologue_nf)

lemma parser_digit:
  assumes "escape_mode s" "ansi_mode s" "isdigit c" "unat (ansi_buf_len s) < 15"
  shows "parser_of (handle_char oob c s)
         = (parser_of s)\<lparr>p_buf := (ansi_buffer s)[unat (ansi_buf_len s) := c],
                           p_len := ansi_buf_len s + 1\<rparr>"
  using assms digit_facts [OF assms(3)]
  by (simp add: in_escape handle_escape_def parser_of_def prologue_nf)

lemma parser_digits:
  "escape_mode s \<Longrightarrow> ansi_mode s \<Longrightarrow> list_all isdigit ds \<Longrightarrow>
   unat (ansi_buf_len s) + length ds \<le> 15 \<Longrightarrow> length (ansi_buffer s) = 16 \<Longrightarrow>
   parser_of (feed oob ds s)
     = (parser_of s)\<lparr>p_buf := take (unat (ansi_buf_len s)) (ansi_buffer s) @ ds @
                                 drop (unat (ansi_buf_len s) + length ds) (ansi_buffer s),
                       p_len := ansi_buf_len s + of_nat (length ds)\<rparr>"
proof (induction ds arbitrary: s)
  case Nil
  then show ?case by (simp add: feed_def parser_of_def)
next
  case (Cons c ds)
  let ?s1 = "handle_char oob c s"
  have c: "isdigit c" and ds: "list_all isdigit ds" using Cons.prems(3) by simp_all
  have lt: "unat (ansi_buf_len s) < 15" using Cons.prems(4) by simp
  have p1: "parser_of ?s1
         = (parser_of s)\<lparr>p_buf := (ansi_buffer s)[unat (ansi_buf_len s) := c],
                           p_len := ansi_buf_len s + 1\<rparr>"
    by (rule parser_digit [OF Cons.prems(1,2) c lt])
  have f1: "escape_mode ?s1" "ansi_mode ?s1"
    "ansi_buffer ?s1 = (ansi_buffer s)[unat (ansi_buf_len s) := c]"
    "ansi_buf_len ?s1 = ansi_buf_len s + 1"
    using arg_cong [OF p1, of p_escape] arg_cong [OF p1, of p_ansi]
      arg_cong [OF p1, of p_buf] arg_cong [OF p1, of p_len] Cons.prems(1,2)
    by (simp_all add: parser_of_def)
  have u1: "unat (ansi_buf_len s + 1) = unat (ansi_buf_len s) + 1"
    using lt by (simp add: unat_word_ariths)
  have len1: "unat (ansi_buf_len ?s1) + length ds \<le> 15" "length (ansi_buffer ?s1) = 16"
    using Cons.prems(4,5) by (simp_all add: f1 u1)
  have ih: "parser_of (feed oob ds ?s1)
     = (parser_of ?s1)\<lparr>p_buf := take (unat (ansi_buf_len ?s1)) (ansi_buffer ?s1) @ ds @
                                 drop (unat (ansi_buf_len ?s1) + length ds) (ansi_buffer ?s1),
                       p_len := ansi_buf_len ?s1 + of_nat (length ds)\<rparr>"
    by (rule Cons.IH [OF f1(1,2) ds len1])
  have n: "unat (ansi_buf_len s) < length (ansi_buffer s)" using lt Cons.prems(5) by simp
  have tk: "take (Suc (unat (ansi_buf_len s))) ((ansi_buffer s)[unat (ansi_buf_len s) := c])
            = take (unat (ansi_buf_len s)) (ansi_buffer s) @ [c]"
    using n by (simp add: take_Suc_conv_app_nth)
  have fd: "feed oob (c # ds) s = feed oob ds ?s1" by (simp add: feed_def)
  show ?case
    unfolding fd ih p1 by (simp add: f1 u1 tk add.assoc)
qed


lemma params_after_sequence:
  "ansi_params (process_ansi_sequence p n c s) = ansi_params s"
  "ansi_param_count (process_ansi_sequence p n c s) = ansi_param_count s"
proof -
  have f: "\<And>xs s. ansi_params (fold (\<lambda>i. process_ansi_code (p ! i)) xs s) = ansi_params s \<and>
                   ansi_param_count (fold (\<lambda>i. process_ansi_code (p ! i)) xs s) = ansi_param_count s"
    subgoal for xs s by (induction xs arbitrary: s) (simp_all add: process_ansi_code_def)
    done
  show "ansi_params (process_ansi_sequence p n c s) = ansi_params s"
    "ansi_param_count (process_ansi_sequence p n c s) = ansi_param_count s"
    by (simp_all add: process_ansi_sequence_def Let_def clear_screen_nf with_back_nf f)
qed

text \<open>The semicolon commits the digits gathered so far.\<close>

lemma parser_semicolon:
  assumes "escape_mode s" "ansi_mode s" "unat (ansi_param_count s) < 4"
  shows "parser_of (handle_char oob 0x3B s)
         = (parser_of s)\<lparr>p_buf := (ansi_buffer s)[unat (ansi_buf_len s) := 0],
              p_params := (ansi_params s)[unat (ansi_param_count s) :=
                 word_of_int (atoi (cstring ((ansi_buffer s)[unat (ansi_buf_len s) := 0])))],
              p_count := ansi_param_count s + 1, p_len := 0\<rparr>"
  using assms
  by (simp add: in_escape handle_escape_def parser_of_def prologue_nf terminate_ansi_buffer_def
      commit_ansi_param_def Let_def ANSI_PARAM_MAX_def)

lemma final_step:
  assumes "escape_mode s" "ansi_mode s" "csi_final c"
  shows "handle_char oob c s =
     (let s1 = (prologue s)\<lparr>ansi_buffer := (ansi_buffer s)[unat (ansi_buf_len s) := 0]\<rparr>;
          s2 = (if ansi_buf_len s > 0 \<and> unat (ansi_param_count s) < 4
                then s1\<lparr>ansi_params := (ansi_params s)[unat (ansi_param_count s) :=
                           word_of_int (atoi (cstring ((ansi_buffer s)[unat (ansi_buf_len s) := 0])))],
                        ansi_param_count := ansi_param_count s + 1\<rparr>
                else s1)
      in (process_ansi_sequence (ansi_params s2) (ansi_param_count s2) c s2)
           \<lparr>escape_mode := False, ansi_mode := False\<rparr>)"
proof -
  have c: "c \<noteq> 0x0D" "c \<noteq> 0x0A" "c \<noteq> 0x5B" "c \<noteq> 0x3B"
    using assms(3) by (simp_all add: csi_final_def)
  have d: "(0x30 \<le> c \<and> c \<le> 0x39) = False"
    using assms(3) by (simp add: csi_final_def isdigit_def)
  show ?thesis
    using assms(1,2) c
    by (simp add: in_escape handle_escape_def prologue_nf terminate_ansi_buffer_def
        commit_ansi_param_def Let_def ANSI_PARAM_MAX_def d)
qed

lemma parser_ofD:
  assumes "parser_of t = P"
  shows "escape_mode t = p_escape P" "ansi_mode t = p_ansi P" "ansi_buffer t = p_buf P"
    "ansi_buf_len t = p_len P" "ansi_params t = p_params P" "ansi_param_count t = p_count P"
    "cursor_x t = p_x P" "cursor_y t = p_y P"
  using assms by (auto simp add: parser_of_def)

lemma feed_append: "feed oob (xs @ ys) s = feed oob ys (feed oob xs s)"
  by (simp add: feed_def)

lemma feed_single: "feed oob [c] s = handle_char oob c s"
  by (simp add: feed_def)

lemma feed_Cons: "feed oob (c # cs) s = feed oob cs (handle_char oob c s)"
  by (simp add: feed_def)

lemma parser_esc:
  assumes "normal_mode s"
  shows "parser_of (handle_char oob 0x1B s) = (parser_of s)\<lparr>p_escape := True\<rparr>"
proof -
  have k: "handle_key 0x1B (prologue s) = (prologue s)\<lparr>escape_mode := True\<rparr>"
    by (simp add: handle_key_def)
  have h: "handle_char oob 0x1B s
           = safe_request_swap (redraw_cursor oob ((prologue s)\<lparr>escape_mode := True\<rparr>))"
    using assms by (simp add: handle_char_other dispatch_normal normal_mode_prologue k)
  show ?thesis
    unfolding h
    by (simp add: parser_of_def safe_request_swap_nf redraw_cursor_nf prologue_nf)
qed

text \<open>After ESC and an opening bracket the parser is empty.\<close>

lemma parser_csi_open:
  assumes "normal_mode s"
  shows "parser_of (feed oob [0x1B, 0x5B] s)
         = (parser_of s)\<lparr>p_escape := True, p_ansi := True, p_len := 0, p_count := 0\<rparr>"
proof -
  note e = parser_ofD [OF parser_esc [OF assms, of oob]]
  have "escape_mode (handle_char oob 0x1B s)" using e(1) by simp
  from parser_bracket [OF this, of oob] show ?thesis
    by (simp add: feed_def parser_esc [OF assms])
qed

text \<open>Digits, then a semicolon: one more parameter, the digits' value modulo 256.\<close>

lemma digits_buffer:
  assumes "length ds \<le> 15" "length buf = 16"
  shows "(ds @ drop (length ds) buf)[unat (word_of_nat (length ds) :: byte) := 0]
         = ds @ 0 # drop (Suc (length ds)) buf"
proof -
  have u: "unat (word_of_nat (length ds) :: byte) = length ds"
    using assms(1) by (simp add: unat_of_nat)
  have "drop (length ds) buf \<noteq> []" using assms by simp
  then obtain b bs where bs: "drop (length ds) buf = b # bs" by (cases "drop (length ds) buf") auto
  then have "bs = drop (Suc (length ds)) buf"
    by (metis drop_Suc tl_drop list.sel(3))
  then show ?thesis
    unfolding u bs by (simp add: list_update_append)
qed

lemma parser_param:
  assumes "escape_mode s" "ansi_mode s" "ansi_buf_len s = 0" "unat (ansi_param_count s) < 4"
    "length (ansi_buffer s) = 16" "list_all isdigit ds" "length ds \<le> 15"
    "decimal_value ds \<le> 2 ^ 31 - 1"
  shows "parser_of (feed oob (ds @ [0x3B]) s)
         = (parser_of s)\<lparr>p_buf := ds @ 0 # drop (Suc (length ds)) (ansi_buffer s),
              p_params := (ansi_params s)[unat (ansi_param_count s) := word_of_nat (decimal_value ds)],
              p_count := ansi_param_count s + 1, p_len := 0\<rparr>"
proof -
  let ?t = "feed oob ds s"
  have pd: "parser_of ?t = (parser_of s)\<lparr>p_buf := ds @ drop (length ds) (ansi_buffer s),
                                           p_len := word_of_nat (length ds)\<rparr>"
    using parser_digits [OF assms(1,2,6) _ assms(5), of oob] assms(3,7) by simp
  note f = parser_ofD [OF pd]
  have t: "escape_mode ?t" "ansi_mode ?t" "unat (ansi_param_count ?t) < 4"
    using f assms(1,2,4) by (simp_all add: parser_of_def)
  have b: "(ansi_buffer ?t)[unat (ansi_buf_len ?t) := 0]
           = ds @ 0 # drop (Suc (length ds)) (ansi_buffer s)"
    using digits_buffer [OF assms(7,5)] f(3,4) by (simp add: parser_of_def)
  have a: "atoi (cstring (ds @ 0 # drop (Suc (length ds)) (ansi_buffer s))) = int (decimal_value ds)"
    by (simp add: cstring_digits [OF assms(6)] atoi_digits [OF assms(6,8)])
  show ?thesis
    unfolding feed_append feed_single parser_semicolon [OF t] b a pd
    using f(5,6) by (simp add: parser_of_def)
qed

lemma prologue_fields:
  "cursor_x (prologue s) = cursor_x s" "cursor_y (prologue s) = cursor_y s"
  "ansi_params (prologue s) = ansi_params s" "ansi_param_count (prologue s) = ansi_param_count s"
  by (simp_all add: prologue_nf)

text \<open>
  Digits (possibly none) and a final byte: the sequence is dispatched with the parameters
  committed so far, and one more when there were digits.
\<close>

lemma csi_dispatch:
  assumes "escape_mode s" "ansi_mode s" "ansi_buf_len s = 0" "unat (ansi_param_count s) < 4"
    "length (ansi_buffer s) = 16" "list_all isdigit ds" "length ds \<le> 15"
    "decimal_value ds \<le> 2 ^ 31 - 1" "csi_final c"
  defines "P \<equiv> (if ds = [] then ansi_params s
                 else (ansi_params s)[unat (ansi_param_count s) := word_of_nat (decimal_value ds)])"
    and "N \<equiv> (if ds = [] then ansi_param_count s else ansi_param_count s + 1)"
  shows "\<exists>s2. feed oob (ds @ [c]) s
                = (process_ansi_sequence P N c s2)\<lparr>escape_mode := False, ansi_mode := False\<rparr> \<and>
              cursor_x s2 = cursor_x s \<and> cursor_y s2 = cursor_y s \<and>
              ansi_params s2 = P \<and> ansi_param_count s2 = N"
proof -
  let ?t = "feed oob ds s"
  have pd: "parser_of ?t = (parser_of s)\<lparr>p_buf := ds @ drop (length ds) (ansi_buffer s),
                                           p_len := word_of_nat (length ds)\<rparr>"
    using parser_digits [OF assms(1,2,6) _ assms(5), of oob] assms(3,7) by simp
  note f = parser_ofD [OF pd]
  have t: "escape_mode ?t" "ansi_mode ?t"
    using f assms(1,2) by (simp_all add: parser_of_def)
  have u: "unat (word_of_nat (length ds) :: byte) = length ds"
    using assms(7) by (simp add: unat_of_nat)
  have pos: "(ansi_buf_len ?t > 0) = (ds \<noteq> [])"
    using f(4) u by (simp add: parser_of_def word_greater_zero_iff unat_eq_zero [symmetric]
        del: unat_eq_zero)
  have b: "(ansi_buffer ?t)[unat (ansi_buf_len ?t) := 0]
           = ds @ 0 # drop (Suc (length ds)) (ansi_buffer s)"
    using digits_buffer [OF assms(7,5)] f(3,4) by (simp add: parser_of_def)
  have a: "atoi (cstring (ds @ 0 # drop (Suc (length ds)) (ansi_buffer s))) = int (decimal_value ds)"
    by (simp add: cstring_digits [OF assms(6)] atoi_digits [OF assms(6,8)])
  have pc: "ansi_params ?t = ansi_params s" "ansi_param_count ?t = ansi_param_count s"
    "cursor_x ?t = cursor_x s" "cursor_y ?t = cursor_y s"
    using f(5,6,7,8) by (simp_all add: parser_of_def)
  define s1 where "s1 = (prologue ?t)\<lparr>ansi_buffer := ds @ 0 # drop (Suc (length ds)) (ansi_buffer s)\<rparr>"
  define s2 where "s2 = (if ds \<noteq> [] \<and> unat (ansi_param_count s) < 4
      then s1\<lparr>ansi_params := (ansi_params s)[unat (ansi_param_count s) :=
                  word_of_int (int (decimal_value ds))],
              ansi_param_count := ansi_param_count s + 1\<rparr>
      else s1)"
  have e: "feed oob (ds @ [c]) s
           = (process_ansi_sequence (ansi_params s2) (ansi_param_count s2) c s2)
               \<lparr>escape_mode := False, ansi_mode := False\<rparr>"
    unfolding feed_append feed_single final_step [OF t assms(9)] b a pos pc Let_def
      s2_def s1_def ..
  have fl: "cursor_x s2 = cursor_x s" "cursor_y s2 = cursor_y s"
    "ansi_params s2 = P" "ansi_param_count s2 = N"
    using assms(4) pc
    by (auto simp add: s2_def s1_def P_def N_def prologue_fields feed_def)
  show ?thesis
    by (rule exI [of _ s2]) (simp add: e fl)
qed

lemma csi_H_cursor:
  "cursor_y (process_ansi_sequence P 0 0x48 s) = cursor_y s"
  "cursor_x (process_ansi_sequence P 0 0x48 s) = cursor_x s"
  "cursor_y (process_ansi_sequence P 1 0x48 s) = zero_based (P ! 0)"
  "cursor_x (process_ansi_sequence P 1 0x48 s) = cursor_x s"
  "cursor_y (process_ansi_sequence P 2 0x48 s) = zero_based (P ! 0)"
  "cursor_x (process_ansi_sequence P 2 0x48 s) = zero_based (P ! 1)"
  by (simp_all add: process_ansi_sequence_def Let_def word_le_nat_alt zero_based_def)

lemma csi_final_H: "csi_final 0x48" "csi_final 0x43"
  by (simp_all add: csi_final_def isdigit_def)

lemma param_minus_one:
  assumes "v \<le> 255"
  shows "zero_based (word_of_nat v) = word_of_nat (v - 1)"
proof (cases "v = 0")
  case True
  then show ?thesis by (simp add: zero_based_def)
next
  case False
  have u: "unat (word_of_nat v :: byte) = v" using assms by (simp add: unat_of_nat)
  then have pos: "(word_of_nat v :: byte) > 0" using False by (simp add: word_greater_zero_iff unat_eq_zero [symmetric] del: unat_eq_zero)
  have "(ucast (word_of_nat v :: byte) :: 16 word) = word_of_nat v"
    using assms by (simp add: unsigned_of_nat take_bit_nat_eq_self)
  moreover have "(word_of_nat v :: 16 word) - 1 = word_of_nat (v - 1)"
    using False by (simp add: of_nat_diff)
  ultimately show ?thesis using pos by (simp add: zero_based_def)
qed


lemma csi_coord_alt: "csi_coord v = word_of_nat (v - 1)"
  by (simp add: csi_coord_def)


lemma csi_C_cursor:
  "cursor_x (process_ansi_sequence P 1 0x43 s)
     = (if unat (cursor_x s) + unat (if P ! 0 > 0 then P ! 0 else 1) < CHAR_COLS
        then cursor_x s + ucast (if P ! 0 > 0 then P ! 0 else 1)
        else of_nat (CHAR_COLS - 1))"
  by (simp add: process_ansi_sequence_def Let_def csi_count_def)

section \<open>Proofs: the contents of the buffers\<close>

lemma fst_put_char: "fst (put_char x y c b) = charbuf_set x y c (fst b)"
  by (simp add: put_char_def)

lemma snd_put_char: "snd (put_char x y c b) = snd b"
  by (simp add: put_char_def)

lemma fst_put_colour: "fst (put_colour x y fg bg b) = fst b"
  by (simp add: put_colour_def)

lemma snd_put_colour: "snd (put_colour x y fg bg b) = colourbuf_set x y fg bg (snd b)"
  by (simp add: put_colour_def)

lemma length_charbuf_set: "length (charbuf_set x y c buf) = length buf"
  by (simp add: charbuf_set_def)

lemma charbuf_set_nth:
  "charbuf_set x y c buf ! i =
     (if x < 80 \<and> y < 30 \<and> i = x + y * 80 \<and> i < length buf then c else buf ! i)"
  by (auto simp add: charbuf_set_def grid_consts nth_list_update list_update_beyond)

lemma nth_update_outside: "\<not> i < length cb \<Longrightarrow> cb[k := v] ! i = cb ! i"
  by (cases "k = i") (simp_all add: list_update_beyond)

lemma fold_blank_length: "length (fold (\<lambda>x cb. cb[f x := v]) xs cb) = length cb"
  by (induction xs arbitrary: cb) simp_all

lemma fold_blank_nth:
  "fold (\<lambda>x cb. cb[f x := v]) xs cb ! i = (if i < length cb \<and> i \<in> f ` set xs then v else cb ! i)"
  by (induction xs arbitrary: cb) (auto simp add: nth_list_update nth_update_outside)

lemma fold_rows_length:
  "length (fold (\<lambda>y. fold (\<lambda>x cb. cb[g y x := v]) xs) ys cb) = length cb"
  by (induction ys arbitrary: cb) (simp_all add: fold_blank_length)

lemma fold_rows_nth:
  "fold (\<lambda>y. fold (\<lambda>x cb. cb[g y x := v]) xs) ys cb ! i =
     (if i < length cb \<and> (\<exists>y\<in>set ys. \<exists>x\<in>set xs. i = g y x) then v else cb ! i)"
  by (induction ys arbitrary: cb) (auto simp add: fold_blank_nth fold_blank_length)

lemma fst_clear_cells:
  "fst (fold (clear_cell fg bg y) xs b) = fold (\<lambda>x cb. cb[x + y * 80 := 0x20]) xs (fst b)"
  by (induction xs arbitrary: b) (simp_all add: clear_cell_def grid_consts)

lemma fst_clear_rows:
  "fst (fold (\<lambda>y. fold (clear_cell fg bg y) xs) ys b) =
     fold (\<lambda>y. fold (\<lambda>x cb. cb[x + y * 80 := 0x20]) xs) ys (fst b)"
  by (induction ys arbitrary: b) (simp_all add: fst_clear_cells)

lemma length_clear_bufs: "length (fst (clear_bufs fg bg b)) = length (fst b)"
  by (simp add: clear_bufs_def fst_clear_rows fold_rows_length)

lemma clear_bufs_nth:
  assumes "i < 2400" "i < length (fst b)"
  shows "fst (clear_bufs fg bg b) ! i = 0x20"
proof -
  have "i div 80 < 30" "i mod 80 < 80" "i = i mod 80 + i div 80 * 80"
    using assms(1) by auto
  then have "\<exists>y\<in>set [0..<30]. \<exists>x\<in>set [0..<80]. i = x + y * 80"
    by (metis atLeastLessThan_iff set_upt zero_le)
  with assms(2) show ?thesis
    by (simp add: clear_bufs_def fst_clear_rows fold_rows_nth grid_consts del: set_upt)
qed

lemma main_init_buffers:
  "charbuf_front main_init = fst (clear_bufs 12 0 (replicate 2400 0, replicate 908 0))"
  "charbuf_back main_init = fst (clear_bufs 12 0 (replicate 2400 0, replicate 908 0))"
  by (simp_all add: main_init_def static_init_def clear_screen_nf perform_swap_def grid_consts)

lemma main_init_blank: "i < 2400 \<Longrightarrow> charbuf_front main_init ! i = 0x20"
  by (simp add: main_init_buffers clear_bufs_nth)


lemma fold_fst_length:
  assumes "\<And>k b. length (fst (f k b)) = length (fst b)"
  shows "length (fst (fold f ks b)) = length (fst b)"
  using assms by (induction ks arbitrary: b) simp_all

lemma length_put_char: "length (fst (put_char x y c b)) = length (fst b)"
  by (simp add: fst_put_char length_charbuf_set)

lemma length_put_colour: "length (fst (put_colour x y fg bg b)) = length (fst b)"
  by (simp add: fst_put_colour)

lemma length_draw_text: "length (fst (draw_text x y fg bg str b)) = length (fst b)"
  unfolding draw_text_def
  by (rule fold_fst_length) (simp add: length_put_char length_put_colour)

lemma length_draw_box: "length (fst (draw_box x y w n down b)) = length (fst b)"
  by (simp add: draw_box_def Let_def length_put_char fold_fst_length)

lemma length_color_grid_cell: "length (fst (color_grid_cell x y row col b)) = length (fst b)"
  by (simp add: color_grid_cell_def Let_def length_put_char length_put_colour)

lemma length_color_menu_paint:
  "length (fst (color_menu_paint x y fg bg title prompt b)) = length (fst b)"
  by (simp add: color_menu_paint_def Let_def length_draw_text length_draw_box
      length_color_grid_cell fold_fst_length)

lemma length_cursor_menu_paint: "length (fst (cursor_menu_paint x y fg bg b)) = length (fst b)"
  by (simp add: cursor_menu_paint_def Let_def length_draw_text length_draw_box fold_fst_length)

lemma draw_color_menu_visible: "cursor_visible (draw_color_menu t p s) = cursor_visible s"
  by (simp add: draw_color_menu_def Let_def save_menu_region_def with_back_nf safe_request_swap_nf)

lemma draw_cursor_menu_visible: "cursor_visible (draw_cursor_menu s) = cursor_visible s"
  by (simp add: draw_cursor_menu_def Let_def save_menu_region_def with_back_nf safe_request_swap_nf)

lemma handle_key_visible: "cursor_visible (handle_key c s) = cursor_visible s"
  by (simp add: handle_key_def Let_def draw_color_menu_visible draw_cursor_menu_visible
      new_line_nf set_char_nf set_colour_nf)

lemma scanlines_idle: "0 \<notin> set ys \<Longrightarrow> fold core1_scanline ys s = s"
  by (induction ys arbitrary: s) (simp_all add: core1_scanline_def)

lemma core1_frame_eq: "core1_frame s = (if swap_pending s then perform_swap s else s)"
proof -
  have "[0..<FRAME_HEIGHT] = 0 # [1..<FRAME_HEIGHT]"
    by (simp add: FRAME_HEIGHT_def upt_rec)
  then have "core1_frame s = fold core1_scanline [1..<FRAME_HEIGHT] (core1_scanline 0 s)"
    by (simp add: core1_frame_def)
  also have "\<dots> = core1_scanline 0 s"
    by (rule scanlines_idle) simp
  finally show ?thesis by (simp add: core1_scanline_def)
qed

lemma byte_ends_in_copy:
  assumes "normal_mode s" "cursor_visible s" "c \<noteq> 0x0D" "c \<noteq> 0x0A"
  shows "charbuf_front (handle_char oob c s) = charbuf_back (handle_char oob c s)"
    and "colourbuf_front (handle_char oob c s) = colourbuf_back (handle_char oob c s)"
proof -
  define t where "t = redraw_cursor oob (handle_key c (prologue s))"
  have h: "handle_char oob c s = safe_request_swap t"
    using assms by (simp add: handle_char_other dispatch_normal normal_mode_prologue t_def)
  have "cursor_visible t"
    using assms(2) by (simp add: t_def redraw_cursor_nf handle_key_visible prologue_nf)
  then have "swap_due t" by (simp add: swap_due_def)
  then show "charbuf_front (handle_char oob c s) = charbuf_back (handle_char oob c s)"
    and "colourbuf_front (handle_char oob c s) = colourbuf_back (handle_char oob c s)"
    unfolding h by (simp_all add: safe_request_swap_nf)
qed





text \<open>\<^verbatim>\<open>set_colour\<close> leaves the colours of every other cell as they are.\<close>

lemma plane_val_bits: "bit (plane_val fg bg) n \<Longrightarrow> n < 4"
  unfolding plane_val_def word_3_mask word_12_mask
  by (auto simp add: bit_simps)

lemma field_write_other:
  fixes w v :: "32 word"
  assumes "m \<noteq> m'" and "\<And>n. bit v n \<Longrightarrow> n < 4"
  shows "drop_bit (4 * m') ((w AND NOT (push_bit (4 * m) 0xF)) OR push_bit (4 * m) v) AND 0xF
           = drop_bit (4 * m') w AND 0xF"
proof -
  define X where "X = (w AND NOT (push_bit (4 * m) (mask 4))) OR push_bit (4 * m) v"
  have k: "bit X (4 * m' + n) = bit w (4 * m' + n)" if "n < 4" for n
  proof -
    have out: "\<not> (4 * m \<le> 4 * m' + n \<and> 4 * m' + n - 4 * m < 4)"
      using that assms(1) by arith
    then have "\<not> (4 * m \<le> 4 * m' + n \<and> bit v (4 * m' + n - 4 * m))"
      using assms(2) by blast
    with out show ?thesis
      unfolding X_def by (auto simp add: bit_simps dest: bit_imp_le_length)
  qed
  have "drop_bit (4 * m') X AND mask 4 = drop_bit (4 * m') w AND mask 4"
    by (rule bit_word_eqI) (auto simp add: bit_simps k)
  then show ?thesis unfolding X_def word_15_mask .
qed

lemma nibble_update_other:
  assumes "j \<noteq> k \<or> m \<noteq> m'" and "\<And>n. bit v n \<Longrightarrow> n < 4"
  shows "nibble_at (nth (buf[k := (buf ! k AND NOT (push_bit (4 * m) 0xF)) OR push_bit (4 * m) v]))
           j (4 * m') = nibble_at (nth buf) j (4 * m')"
proof (cases "j = k \<and> k < length buf")
  case True
  then have "m \<noteq> m'" using assms(1) by simp
  then have f: "drop_bit (4 * m') ((buf ! k AND NOT (push_bit (4 * m) 0xF)) OR push_bit (4 * m) v) AND 0xF
                  = drop_bit (4 * m') (buf ! k) AND 0xF"
    using assms(2) by (rule field_write_other)
  from True have j: "j = k" and k: "k < length buf" by simp_all
  show ?thesis
    unfolding nibble_at_def j by (simp only: nth_list_update_eq [OF k] f)
next
  case False
  then show ?thesis
    by (cases "j = k") (simp_all add: nibble_at_def list_update_beyond)
qed

lemma colourbuf_set_steps:
  assumes "x < 80" "y < 30"
  shows "colourbuf_set x y fg bg buf =
    (let w = (x + y * 80) div 8; b = 4 * ((x + y * 80) mod 8);
         b0 = buf[w := (buf ! w AND NOT (push_bit b 0xF)) OR push_bit b (plane_val fg bg)];
         b1 = b0[w + 300 := (b0 ! (w + 300) AND NOT (push_bit b 0xF))
                              OR push_bit b (plane_val (drop_bit 2 fg) (drop_bit 2 bg))]
     in b1[w + 600 := (b1 ! (w + 600) AND NOT (push_bit b 0xF))
                        OR push_bit b (plane_val (drop_bit 4 fg) (drop_bit 4 bg))])"
  using assms
  by (simp add: colourbuf_set_def set_colour_plane_def grid_consts upt_3 Let_def plane_val_def
      mult.commute)

lemma length_colourbuf_set: "length (colourbuf_set x y fg bg buf) = length buf"
  by (simp add: colourbuf_set_def set_colour_plane_def upt_3 Let_def)

lemma colourbuf_set_nibble:
  assumes "x < 80" "y < 30" "i < 2400" "i \<noteq> x + y * 80"
    and "j = i div 8 \<or> j = i div 8 + 300 \<or> j = i div 8 + 600"
  shows "nibble_at (nth (colourbuf_set x y fg bg buf)) j (4 * (i mod 8))
           = nibble_at (nth buf) j (4 * (i mod 8))"
proof -
  define w where "w = (x + y * 80) div 8"
  define m where "m = (x + y * 80) mod 8"
  have w: "w < 300" using assms(1,2) unfolding w_def by simp
  have i: "i div 8 < 300" using assms(3) by simp
  have ne: "i div 8 \<noteq> w \<or> m \<noteq> i mod 8"
    using assms(4) unfolding w_def m_def by (metis div_mult_mod_eq)
  have c: "j \<noteq> w \<or> m \<noteq> i mod 8" "j \<noteq> w + 300 \<or> m \<noteq> i mod 8"
    "j \<noteq> w + 600 \<or> m \<noteq> i mod 8"
    using assms(5) w i ne by auto
  show ?thesis
    unfolding colourbuf_set_steps [OF assms(1,2)] Let_def w_def [symmetric] m_def [symmetric]
    by (simp only: nibble_update_other [OF c(1) plane_val_bits]
        nibble_update_other [OF c(2) plane_val_bits] nibble_update_other [OF c(3) plane_val_bits])
qed

lemma colourbuf_set_other:
  assumes "x < 80" "y < 30" "i < 2400" "i \<noteq> x + y * 80"
  shows "decode_colour (nth (colourbuf_set x y fg bg buf)) i = decode_colour (nth buf) i"
proof -
  have n: "nibble_at (nth (colourbuf_set x y fg bg buf)) (i div 8) (4 * (i mod 8))
             = nibble_at (nth buf) (i div 8) (4 * (i mod 8))"
    "nibble_at (nth (colourbuf_set x y fg bg buf)) (i div 8 + 300) (4 * (i mod 8))
             = nibble_at (nth buf) (i div 8 + 300) (4 * (i mod 8))"
    "nibble_at (nth (colourbuf_set x y fg bg buf)) (i div 8 + 600) (4 * (i mod 8))
             = nibble_at (nth buf) (i div 8 + 600) (4 * (i mod 8))"
    by (rule colourbuf_set_nibble [OF assms], simp)+
  show ?thesis
    unfolding decode_colour_unfold mult.commute [of "i mod 8" 4] by (simp only: n)
qed

text \<open>A sequence of writes to cells: the last write to a cell is what the cell holds.\<close>

lemma fold_keeps:
  assumes "\<And>k st. P st \<Longrightarrow> P (wr k st)" and "P st"
  shows "P (fold wr ks st)"
  using assms(2) by (induction ks arbitrary: st) (simp_all add: assms(1))

lemma fold_last_write:
  assumes inv: "\<And>k st. P st \<Longrightarrow> P (wr k st)"
    and same: "\<And>k st. P st \<Longrightarrow> okk k \<Longrightarrow> get (wr k st) (pos k) = val k"
    and other: "\<And>k st i. P st \<Longrightarrow> okk k \<Longrightarrow> dm i \<Longrightarrow> pos k \<noteq> i \<Longrightarrow> get (wr k st) i = get st i"
    and skip: "\<And>k st. \<not> okk k \<Longrightarrow> wr k st = st"
    and dm: "\<And>k. okk k \<Longrightarrow> dm (pos k)"
  shows "P st \<Longrightarrow> k \<in> set ks \<Longrightarrow> okk k \<Longrightarrow>
         (\<forall>k'\<in>set ks. okk k' \<longrightarrow> pos k' = pos k \<longrightarrow> val k' = val k) \<Longrightarrow>
         get (fold wr ks st) (pos k) = val k"
proof (induction ks rule: rev_induct)
  case Nil
  then show ?case by simp
next
  case (snoc a ks)
  have P: "P (fold wr ks st)" using inv snoc.prems(1) by (rule fold_keeps)
  have step: "fold wr (ks @ [a]) st = wr a (fold wr ks st)" by simp
  have agree: "\<forall>k'\<in>set ks. okk k' \<longrightarrow> pos k' = pos k \<longrightarrow> val k' = val k"
    using snoc.prems(4) by simp
  have IH: "k \<in> set ks \<Longrightarrow> get (fold wr ks st) (pos k) = val k"
    using snoc.IH [OF snoc.prems(1) _ snoc.prems(3) agree] .
  show ?case
  proof (cases "okk a")
    case False
    then have "a \<noteq> k" using snoc.prems(3) by blast
    then have "k \<in> set ks" using snoc.prems(2) by simp
    then show ?thesis unfolding step skip [OF False] by (rule IH)
  next
    case True
    show ?thesis
    proof (cases "pos a = pos k")
      case True
      have "a \<in> set (ks @ [a])" by simp
      then have "val a = val k" using snoc.prems(4) \<open>okk a\<close> True by blast
      then show ?thesis unfolding step using same [OF P \<open>okk a\<close>] True by simp
    next
      case False
      then have "a \<noteq> k" by blast
      then have "k \<in> set ks" using snoc.prems(2) by simp
      moreover have "get (wr a (fold wr ks st)) (pos k) = get (fold wr ks st) (pos k)"
        using P \<open>okk a\<close> dm [OF snoc.prems(3)] False by (rule other)
      ultimately show ?thesis unfolding step using IH by simp
    qed
  qed
qed

lemma fold_untouched:
  assumes inv: "\<And>k st. P st \<Longrightarrow> P (wr k st)"
    and other: "\<And>k st i. P st \<Longrightarrow> okk k \<Longrightarrow> dm i \<Longrightarrow> pos k \<noteq> i \<Longrightarrow> get (wr k st) i = get st i"
    and skip: "\<And>k st. \<not> okk k \<Longrightarrow> wr k st = st"
  shows "P st \<Longrightarrow> dm i \<Longrightarrow> (\<forall>k\<in>set ks. okk k \<longrightarrow> pos k \<noteq> i) \<Longrightarrow>
         get (fold wr ks st) i = get st i"
proof (induction ks arbitrary: st)
  case Nil
  then show ?case by simp
next
  case (Cons a ks)
  have rest: "\<forall>k\<in>set ks. okk k \<longrightarrow> pos k \<noteq> i" using Cons.prems(3) by simp
  have "get (fold wr ks (wr a st)) i = get (wr a st) i"
    using inv [OF Cons.prems(1)] Cons.prems(2) rest by (rule Cons.IH)
  also have "get (wr a st) i = get st i"
  proof (cases "okk a")
    case True
    then have "pos a \<noteq> i" using Cons.prems(3) by simp
    with Cons.prems(1) True Cons.prems(2) show ?thesis by (rule other)
  next
    case False
    show ?thesis unfolding skip [OF False] ..
  qed
  finally show ?case by simp
qed

lemma fold_product:
  "fold (\<lambda>r. fold (f r) cs) rs b = fold (\<lambda>k. f (fst k) (snd k)) (List.product rs cs) b"
  by (induction rs arbitrary: b) (simp_all add: fold_map comp_def)


text \<open>
  The scroll moves every row up by one and blanks the last row in the given colours.
\<close>

lemma length_memmove:
  "d + n \<le> length col \<Longrightarrow> s + n \<le> length col \<Longrightarrow> length (memmove col d s n) = length col"
  by (simp add: memmove_def)

lemma memmove_nth:
  assumes "d + n \<le> length col" "s + n \<le> length col" "j < length col"
  shows "memmove col d s n ! j = (if d \<le> j \<and> j < d + n then col ! (s + (j - d)) else col ! j)"
proof -
  have m: "min (length col - s) n = n" using assms(2) by simp
  show ?thesis
    using assms by (auto simp add: memmove_def nth_append m)
qed

lemma last_row_image: "(i \<in> (\<lambda>x. x + 2320) ` set [0..<80]) = (2320 \<le> i \<and> i < 2400)"
proof
  assume "i \<in> (\<lambda>x. x + 2320) ` set [0..<80]"
  then show "2320 \<le> i \<and> i < 2400" by auto
next
  assume a: "2320 \<le> i \<and> i < 2400"
  show "i \<in> (\<lambda>x. x + 2320) ` set [0..<80]"
    by (rule image_eqI [where x = "i - 2320"]) (use a in auto)
qed

lemma scroll_chars:
  assumes "length (fst b) = 2400" "i < 2400"
  shows "fst (scroll_bufs fg bg b) ! i = (if i < 2320 then fst b ! (i + 80) else 0x20)"
proof -
  define cb1 where "cb1 = memmove (fst b) 0 80 2320"
  have l: "length cb1 = 2400" unfolding cb1_def using assms(1) by (simp add: length_memmove)
  have n: "cb1 ! i = (if i < 2320 then fst b ! (i + 80) else fst b ! i)"
    unfolding cb1_def using assms by (simp add: memmove_nth add.commute)
  have "fst (scroll_bufs fg bg b) = fold (\<lambda>x cb. cb[x + 2320 := 0x20]) [0..<80] cb1"
    by (simp add: scroll_bufs_def Let_def grid_consts cb1_def)
  then show ?thesis
    using assms(2) l n by (simp only: fold_blank_nth last_row_image) auto
qed

lemma length_scroll_chars: "length (fst b) = 2400 \<Longrightarrow> length (fst (scroll_bufs fg bg b)) = 2400"
  by (simp add: scroll_bufs_def Let_def grid_consts fold_blank_length length_memmove)

lemma scroll_words:
  assumes "900 \<le> length col"
  defines "col1 \<equiv> fold (\<lambda>p col. memmove col (p * 300) (p * 300 + 10) 290) [0..<3] col"
  shows "length col1 = length col"
    and "w < 290 \<Longrightarrow> col1 ! w = col ! (w + 10)"
    and "w < 290 \<Longrightarrow> col1 ! (w + 300) = col ! (w + 310)"
    and "w < 290 \<Longrightarrow> col1 ! (w + 600) = col ! (w + 610)"
  using assms(1) unfolding col1_def
  by (simp_all add: upt_3 length_memmove memmove_nth add.commute)

lemma decode_shift:
  assumes "i < 2320"
    and "c1 ! (i div 8) = c ! (i div 8 + 10)"
    and "c1 ! (i div 8 + 300) = c ! (i div 8 + 310)"
    and "c1 ! (i div 8 + 600) = c ! (i div 8 + 610)"
  shows "decode_colour (nth c1) i = decode_colour (nth c) (i + 80)"
proof -
  have d: "(i + 80) div 8 = i div 8 + 10" "(i + 80) mod 8 = i mod 8" by presburger+
  show ?thesis
    unfolding decode_colour_unfold nibble_at_def d using assms(2-4) by (simp add: add.assoc)
qed

lemma clear_nibble_steps:
  "clear_nibble x col =
    (let w = (x + 2320) div 8; b = 4 * ((x + 2320) mod 8);
         b0 = col[w := (col ! w AND NOT (push_bit b 0xF)) OR push_bit b 0];
         b1 = b0[w + 300 := (b0 ! (w + 300) AND NOT (push_bit b 0xF)) OR push_bit b 0]
     in b1[w + 600 := (b1 ! (w + 600) AND NOT (push_bit b 0xF)) OR push_bit b 0])"
  by (simp add: clear_nibble_def grid_consts upt_3 Let_def mult.commute)

lemma length_clear_nibble: "length (clear_nibble x col) = length col"
  by (simp add: clear_nibble_steps Let_def)

lemma clear_nibble_nibble:
  assumes "x < 80" "i < 2400" "i \<noteq> x + 2320"
    and "j = i div 8 \<or> j = i div 8 + 300 \<or> j = i div 8 + 600"
  shows "nibble_at (nth (clear_nibble x col)) j (4 * (i mod 8))
           = nibble_at (nth col) j (4 * (i mod 8))"
proof -
  define w where "w = (x + 2320) div 8"
  define m where "m = (x + 2320) mod 8"
  have w: "w < 300" using assms(1) unfolding w_def by simp
  have i: "i div 8 < 300" using assms(2) by simp
  have ne: "i div 8 \<noteq> w \<or> m \<noteq> i mod 8"
    using assms(3) unfolding w_def m_def by (metis div_mult_mod_eq)
  have c: "j \<noteq> w \<or> m \<noteq> i mod 8" "j \<noteq> w + 300 \<or> m \<noteq> i mod 8"
    "j \<noteq> w + 600 \<or> m \<noteq> i mod 8"
    using assms(4) w i ne by auto
  have z: "\<And>n. bit (0 :: 32 word) n \<Longrightarrow> n < 4" by simp
  show ?thesis
    unfolding clear_nibble_steps Let_def w_def [symmetric] m_def [symmetric]
    by (simp only: nibble_update_other [OF c(1) z]
        nibble_update_other [OF c(2) z] nibble_update_other [OF c(3) z])
qed

lemma clear_nibble_other:
  assumes "x < 80" "i < 2400" "i \<noteq> x + 2320"
  shows "decode_colour (nth (clear_nibble x col)) i = decode_colour (nth col) i"
proof -
  have n: "nibble_at (nth (clear_nibble x col)) (i div 8) (4 * (i mod 8))
             = nibble_at (nth col) (i div 8) (4 * (i mod 8))"
    "nibble_at (nth (clear_nibble x col)) (i div 8 + 300) (4 * (i mod 8))
             = nibble_at (nth col) (i div 8 + 300) (4 * (i mod 8))"
    "nibble_at (nth (clear_nibble x col)) (i div 8 + 600) (4 * (i mod 8))
             = nibble_at (nth col) (i div 8 + 600) (4 * (i mod 8))"
    by (rule clear_nibble_nibble [OF assms], simp)+
  show ?thesis
    unfolding decode_colour_unfold mult.commute [of "i mod 8" 4] by (simp only: n)
qed

lemma fold_clear_untouched:
  "\<forall>x\<in>set xs. x < 80 \<and> x + 2320 \<noteq> i \<Longrightarrow> i < 2400 \<Longrightarrow>
     decode_colour (nth (fold clear_nibble xs col)) i = decode_colour (nth col) i"
  by (induction xs arbitrary: col) (simp_all add: clear_nibble_other)

lemma length_fold_clear: "length (fold clear_nibble xs col) = length col"
  by (induction xs arbitrary: col) (simp_all add: length_clear_nibble)

lemma fold_set_untouched:
  "\<forall>x\<in>set xs. x < 80 \<and> x + y * 80 \<noteq> i \<Longrightarrow> y < 30 \<Longrightarrow> i < 2400 \<Longrightarrow>
     decode_colour (nth (fold (\<lambda>x. colourbuf_set x y fg bg) xs col)) i = decode_colour (nth col) i"
  by (induction xs arbitrary: col) (simp_all add: colourbuf_set_other)

lemma length_fold_set: "length (fold (\<lambda>x. colourbuf_set x y fg bg) xs col) = length col"
  by (induction xs arbitrary: col) (simp_all add: length_colourbuf_set)

lemma last_row_colours:
  assumes "900 \<le> length col" "2320 \<le> i" "i < 2400"
  shows "decode_colour (nth (fold (\<lambda>x. colourbuf_set x 29 fg bg) [0..<80] col)) i
           = (fg AND mask 6, bg AND mask 6)"
proof -
  have "decode_colour (nth (fold (\<lambda>x. colourbuf_set x 29 fg bg) [0..<80] col)) ((i - 2320) + 2320)
          = (fg AND mask 6, bg AND mask 6)"
  proof (rule fold_last_write [where P = "\<lambda>buf. 900 \<le> length buf" and okk = "\<lambda>x. x < 80"
        and dm = "\<lambda>i. i < 2400" and pos = "\<lambda>x. x + 2320"
        and get = "\<lambda>buf i. decode_colour (nth buf) i"
        and val = "\<lambda>x. (fg AND mask 6, bg AND mask 6)"
        and wr = "\<lambda>x. colourbuf_set x 29 fg bg"])
    show "900 \<le> length (colourbuf_set k 29 fg bg st)" if "900 \<le> length st" for k st
      using that by (simp add: length_colourbuf_set)
    show "decode_colour (nth (colourbuf_set k 29 fg bg st)) (k + 2320) = (fg AND mask 6, bg AND mask 6)"
      if "900 \<le> length st" "k < 80" for k st
      using colourbuf_get_set [of k 29 st fg bg] that by (simp add: colourbuf_get_def grid_consts)
    show "decode_colour (nth (colourbuf_set k 29 fg bg st)) j = decode_colour (nth st) j"
      if "900 \<le> length st" "k < 80" "j < 2400" "k + 2320 \<noteq> j" for k st j
      using colourbuf_set_other [of k 29 j fg bg st] that by simp
    show "colourbuf_set k 29 fg bg st = st" if "\<not> k < 80" for k st
      using that by (simp add: colourbuf_set_def grid_consts)
    show "k + 2320 < 2400" if "k < 80" for k :: nat using that by simp
    show "900 \<le> length col" by (rule assms(1))
    show "i - 2320 \<in> set [0..<80]" using assms(2,3) by auto
    show "i - 2320 < 80" using assms(2,3) by auto
    show "\<forall>k'\<in>set [0..<80]. k' < 80 \<longrightarrow> k' + 2320 = i - 2320 + 2320 \<longrightarrow>
            (fg AND mask 6, bg AND mask 6) = (fg AND mask 6, bg AND mask 6)" by simp
  qed
  then show ?thesis using assms(2) by simp
qed

lemma scroll_colours:
  assumes "900 \<le> length (snd b)" "i < 2400"
  shows "decode_colour (nth (snd (scroll_bufs fg bg b))) i =
           (if i < 2320 then decode_colour (nth (snd b)) (i + 80)
            else (fg AND mask 6, bg AND mask 6))"
proof -
  define col1 where
    "col1 = fold (\<lambda>p col. memmove col (p * 300) (p * 300 + 10) 290) [0..<3] (snd b)"
  define col2 where "col2 = fold clear_nibble [0..<80] col1"
  have s: "snd (scroll_bufs fg bg b) = fold (\<lambda>x. colourbuf_set x 29 fg bg) [0..<80] col2"
    by (simp add: scroll_bufs_def Let_def grid_consts col1_def col2_def)
  note sw = scroll_words [OF assms(1), folded col1_def]
  have l2: "900 \<le> length col2" using sw(1) assms(1) by (simp add: col2_def length_fold_clear)
  show ?thesis
  proof (cases "i < 2320")
    case True
    then have w: "i div 8 < 290" by simp
    have "decode_colour (nth (snd (scroll_bufs fg bg b))) i = decode_colour (nth col2) i"
      unfolding s using True by (intro fold_set_untouched) auto
    also have "\<dots> = decode_colour (nth col1) i"
      unfolding col2_def using True by (intro fold_clear_untouched) auto
    also have "\<dots> = decode_colour (nth (snd b)) (i + 80)"
      using True sw(2) [OF w] sw(3) [OF w] sw(4) [OF w] by (rule decode_shift)
    finally show ?thesis using True by simp
  next
    case False
    then have "2320 \<le> i" by simp
    from last_row_colours [OF l2 this assms(2)] False show ?thesis unfolding s by simp
  qed
qed

lemma length_scroll_colours:
  "900 \<le> length (snd b) \<Longrightarrow> length (snd (scroll_bufs fg bg b)) = length (snd b)"
  using scroll_words(1) [of "snd b"]
  by (simp add: scroll_bufs_def Let_def grid_consts length_fold_set length_fold_clear)


text \<open>
  Cell by cell: what \<^verbatim>\<open>set_char\<close>, \<^verbatim>\<open>set_colour\<close>, the painting of the cursor and the
  scroll leave in the cell at column \<open>x\<close>, row \<open>y\<close>; and the back buffers after a
  carriage return handled in Normal state.
\<close>

lemma cell_index:
  assumes "x < 80" "x' < 80"
  shows "(x + y * 80 = x' + y' * 80) = (x = x' \<and> y = (y' :: nat))"
proof
  assume e: "x + y * 80 = x' + y' * 80"
  have "(x + y * 80) mod 80 = x" "(x' + y' * 80) mod 80 = x'" using assms by simp_all
  with e have x: "x = x'" by simp
  with e show "x = x' \<and> y = y'" by simp
qed simp

lemma colourbuf_get_set_nth:
  assumes "x < 80" "y < 30" "px < 80" "py < 30" "900 \<le> length buf"
  shows "colourbuf_get (colourbuf_set px py fg bg buf) x y =
           (if x = px \<and> y = py then (fg AND mask 6, bg AND mask 6) else colourbuf_get buf x y)"
proof (cases "x = px \<and> y = py")
  case True
  then show ?thesis using assms by (simp add: colourbuf_get_set)
next
  case False
  then have "x + y * 80 \<noteq> px + py * 80" using assms(1,3) by (simp add: cell_index)
  moreover have "x + y * 80 < 2400" using assms(1,2) by simp
  ultimately have "decode_colour (nth (colourbuf_set px py fg bg buf)) (x + y * 80)
                     = decode_colour (nth buf) (x + y * 80)"
    using assms(3,4) by (intro colourbuf_set_other) simp_all
  then have "colourbuf_get (colourbuf_set px py fg bg buf) x y = colourbuf_get buf x y"
    by (simp add: colourbuf_get_def grid_consts)
  then show ?thesis by (simp only: False if_False)
qed

lemma length_snd_put_char: "length (snd (put_char x y c b)) = length (snd b)"
  by (simp add: snd_put_char)

lemma length_snd_put_colour: "length (snd (put_colour x y fg bg b)) = length (snd b)"
  by (simp add: snd_put_colour length_colourbuf_set)

lemma cell_put_char:
  assumes "length (fst b) = 2400" "x < 80" "y < 30" "px < 80" "py < 30"
  shows "cell (put_char px py c b) x y =
           (if x = px \<and> y = py then (c, snd (cell b x y)) else cell b x y)"
  using assms
  by (simp add: cell_def fst_put_char snd_put_char charbuf_set_nth grid_consts cell_index)

lemma cell_put_colour:
  assumes "900 \<le> length (snd b)" "x < 80" "y < 30" "px < 80" "py < 30"
  shows "cell (put_colour px py fg bg b) x y =
           (if x = px \<and> y = py then (fst (cell b x y), fg AND mask 6, bg AND mask 6)
            else cell b x y)"
  using assms
  by (simp add: cell_def fst_put_colour snd_put_colour colourbuf_get_set_nth)

lemma painted_cell:
  assumes "length (fst b) = 2400" "900 \<le> length (snd b)" "x < 80" "y < 30" "px < 80" "py < 30"
  shows "cell (painted px py g fg bg b) x y =
           (if x = px \<and> y = py then (g, fg AND mask 6, bg AND mask 6) else cell b x y)"
  using assms
  by (simp add: painted_def cell_put_char cell_put_colour length_put_char length_put_colour
      length_snd_put_char length_snd_put_colour)

lemma scroll_bufs_cell:
  assumes "length (fst b) = 2400" "900 \<le> length (snd b)" "x < 80" "y < 30"
  shows "cell (scroll_bufs fg bg b) x y =
           (if y + 1 < 30 then cell b x (y + 1) else (0x20, fg AND mask 6, bg AND mask 6))"
proof -
  have i: "x + y * 80 < 2400" using assms(3,4) by simp
  have r: "(x + y * 80 < 2320) = (y + 1 < 30)" using assms(3) by linarith
  have n: "x + y * 80 + 80 = x + (y + 1) * 80" by simp
  show ?thesis
    unfolding cell_def colourbuf_get_def grid_consts
    using scroll_chars [OF assms(1) i, of fg bg] scroll_colours [OF assms(2) i, of fg bg]
    unfolding r n by simp
qed

lemma length_unpaint:
  "length (fst (unpaint s)) = length (charbuf_back s)"
  "length (snd (unpaint s)) = length (colourbuf_back s)"
  by (simp_all add: unpaint_alt length_charbuf_set length_colourbuf_set)

lemma remove_cursor_back:
  "(charbuf_back (remove_cursor s), colourbuf_back (remove_cursor s)) = unpaint s"
  by (simp add: remove_cursor_nf)

lemma cr_buffers:
  assumes "normal_mode s" "\<not> skip_next_cr s" "\<not> suppress_next_cr s"
  shows "(charbuf_back (handle_char oob 0x0D s), colourbuf_back (handle_char oob 0x0D s)) =
           (if cursor_visible s
            then painted 0 (unat (cursor_y (handle_char oob 0x0D s)))
                   (cursor_glyph (current_cursor s)) (current_fg s) (current_bg s)
                   (if wraps_line s
                    then scroll_bufs (current_fg s) (current_bg s) (unpaint s) else unpaint s)
            else (if wraps_line s
                  then scroll_bufs (current_fg s) (current_bg s) (unpaint s) else unpaint s))"
    and "charbuf_front (handle_char oob 0x0D s) = charbuf_back (handle_char oob 0x0D s)"
    and "colourbuf_front (handle_char oob 0x0D s) = colourbuf_back (handle_char oob 0x0D s)"
proof -
  have m: "\<not> cursor_menu_mode s" using assms(1) by (simp add: normal_mode_def)
  show "(charbuf_back (handle_char oob 0x0D s), colourbuf_back (handle_char oob 0x0D s)) =
           (if cursor_visible s
            then painted 0 (unat (cursor_y (handle_char oob 0x0D s)))
                   (cursor_glyph (current_cursor s)) (current_fg s) (current_bg s)
                   (if wraps_line s
                    then scroll_bufs (current_fg s) (current_bg s) (unpaint s) else unpaint s)
            else (if wraps_line s
                  then scroll_bufs (current_fg s) (current_bg s) (unpaint s) else unpaint s))"
    unfolding cr_in_normal_mode [OF assms]
    using m
    by (simp add: safe_request_swap_nf redraw_cursor_nf new_line_nf prologue_nf redraw_on_def
        unpaint_not_drawn back_after_line_def wraps_line_def)
  show "charbuf_front (handle_char oob 0x0D s) = charbuf_back (handle_char oob 0x0D s)"
    "colourbuf_front (handle_char oob 0x0D s) = colourbuf_back (handle_char oob 0x0D s)"
    unfolding cr_in_normal_mode [OF assms]
    using m
    by (simp_all add: safe_request_swap_nf redraw_cursor_nf new_line_nf prologue_nf redraw_on_def
        swap_due_def)
qed

lemma line_cells:
  assumes "length (fst b) = 2400" "900 \<le> length (snd b)" "x < 80" "y < 30"
  shows "cell (if w then scroll_bufs fg bg b else b) x y =
           (if \<not> w then cell b x y
            else if y + 1 < 30 then cell b x (y + 1)
            else (0x20, fg AND mask 6, bg AND mask 6))"
  using scroll_bufs_cell [OF assms, of fg bg] by simp

lemma line_lengths:
  assumes "length (fst b) = 2400" "900 \<le> length (snd b)"
  shows "length (fst (if w then scroll_bufs fg bg b else b)) = 2400"
    and "900 \<le> length (snd (if w then scroll_bufs fg bg b else b))"
  using assms by (simp_all add: length_scroll_chars length_scroll_colours)

lemma cr_cells:
  assumes "normal_mode s" "\<not> skip_next_cr s" "\<not> suppress_next_cr s"
    and "length (charbuf_back s) = 2400" "length (colourbuf_back s) = 908"
    and "x < 80" "y < 30"
  shows "cell (charbuf_back (handle_char oob 0x0D s), colourbuf_back (handle_char oob 0x0D s)) x y =
           (if cursor_visible s \<and> x = 0 \<and> y = unat (cursor_y (handle_char oob 0x0D s))
            then (cursor_glyph (current_cursor s), current_fg s AND mask 6, current_bg s AND mask 6)
            else if \<not> wraps_line s then cell (unpaint s) x y
            else if y + 1 < 30 then cell (unpaint s) x (y + 1)
            else (0x20, current_fg s AND mask 6, current_bg s AND mask 6))"
proof -
  define s1 where "s1 = handle_char oob 0x0D s"
  define B where "B = (if wraps_line s
                       then scroll_bufs (current_fg s) (current_bg s) (unpaint s) else unpaint s)"
  have l: "length (fst (unpaint s)) = 2400" "900 \<le> length (snd (unpaint s))"
    using assms(4,5) by (simp_all add: length_unpaint)
  note lB = line_lengths [OF l, of "wraps_line s" "current_fg s" "current_bg s", folded B_def]
  have cB: "cell B x y =
              (if \<not> wraps_line s then cell (unpaint s) x y
               else if y + 1 < 30 then cell (unpaint s) x (y + 1)
               else (0x20, current_fg s AND mask 6, current_bg s AND mask 6))"
    unfolding B_def by (rule line_cells [OF l assms(6,7)])
  have "cursor_y s1 = (if wraps_line s then of_nat (CHAR_ROWS - 1) else cursor_y s + 1)"
    unfolding s1_def cr_in_normal_mode [OF assms(1-3)]
    by (simp add: safe_request_swap_nf redraw_cursor_nf new_line_nf wraps_line_def prologue_nf)
  then have row: "unat (cursor_y s1) < 30"
    by (cases "wraps_line s") (simp_all add: wraps_line_def grid_consts)
  have b: "(charbuf_back s1, colourbuf_back s1) =
             (if cursor_visible s
              then painted 0 (unat (cursor_y s1)) (cursor_glyph (current_cursor s))
                     (current_fg s) (current_bg s) B
              else B)"
    unfolding s1_def B_def by (rule cr_buffers(1) [OF assms(1-3)])
  show ?thesis
  proof (cases "cursor_visible s")
    case True
    have p: "cell (painted 0 (unat (cursor_y s1)) (cursor_glyph (current_cursor s))
                     (current_fg s) (current_bg s) B) x y =
               (if x = 0 \<and> y = unat (cursor_y s1)
                then (cursor_glyph (current_cursor s), current_fg s AND mask 6,
                      current_bg s AND mask 6)
                else cell B x y)"
      by (rule painted_cell [OF lB assms(6,7) _ row]) simp
    show ?thesis
      unfolding s1_def [symmetric] b by (simp only: True if_True simp_thms p cB)
  next
    case False
    show ?thesis
      unfolding s1_def [symmetric] b by (simp only: False if_False simp_thms cB)
  qed
qed


lemma fold_snd_length:
  assumes "\<And>k b. length (snd (f k b)) = length (snd b)"
  shows "length (snd (fold f ks b)) = length (snd b)"
  using assms by (induction ks arbitrary: b) simp_all

lemma length_snd_clear_bufs:
  "length (snd (clear_bufs fg bg b)) = 3 * COLOUR_PLANE_SIZE_WORDS + COLOUR_PAD_WORDS"
proof -
  have c: "length (snd (clear_cell fg bg y x b)) = length (snd b)" for y x b
    by (simp add: clear_cell_def length_colourbuf_set)
  have r: "length (snd (fold (clear_cell fg bg y) xs b)) = length (snd b)" for y xs b
    by (rule fold_snd_length) (rule c)
  have "length (snd (fold (\<lambda>y. fold (clear_cell fg bg y) [0..<CHAR_COLS]) [0..<CHAR_ROWS] b'))
          = length (snd b')" for b'
    by (rule fold_snd_length) (rule r)
  then show ?thesis by (simp add: clear_bufs_def)
qed

lemma mask_6: "(mask 6 :: byte) = 63"
  by (simp add: mask_eq_exp_minus_1)

lemma last_row_state:
  defines "s5 \<equiv> feed zero_stray [0x1B, 0x5B, 0x33, 0x30, 0x48] main_init"
  shows "normal_mode s5" "cursor_x s5 = 0" "cursor_y s5 = 29" "cursor_visible s5"
    "current_fg s5 = 12" "current_bg s5 = 0" "current_cursor s5 = CURSOR_APPLE_I"
    "\<not> cursor_drawn s5" "length (charbuf_back s5) = 2400" "length (colourbuf_back s5) = 908"
  unfolding s5_def
  by (simp_all add: run_defs normal_mode_def length_charbuf_set length_colourbuf_set
      length_clear_bufs length_snd_clear_bufs put_char_def put_colour_def grid_consts)

section \<open>Proofs: the menus\<close>

text \<open>\<^verbatim>\<open>restore_menu_region\<close> writes each cell of the region once; the cell then shows what was saved.\<close>

lemma cell_of_index:
  "x < 80 \<Longrightarrow> cell b ((x + y * 80) mod 80) ((x + y * 80) div 80) = cell b x y"
  by simp

lemma restore_cell_lengths:
  "length (fst (restore_cell sv l t row col b)) = length (fst b)"
  "length (snd (restore_cell sv l t row col b)) = length (snd b)"
  by (cases sv; simp add: restore_cell_def Let_def length_put_char length_put_colour
      length_snd_put_char length_snd_put_colour)+

lemma restore_cell_same:
  assumes "length (fst b) = 2400" "900 \<le> length (snd b)" "l + col < 80" "t + row < 30"
  shows "cell (restore_cell (sc, sf, sb) l t row col b) (l + col) (t + row)
           = (sc ! row ! col, sf ! row ! col AND mask 6, sb ! row ! col AND mask 6)"
  using assms
  by (simp add: restore_cell_def Let_def grid_consts cell_put_char cell_put_colour
      length_put_char length_snd_put_char)

lemma restore_cell_other:
  assumes "length (fst b) = 2400" "900 \<le> length (snd b)" "l + col < 80" "t + row < 30"
    "x < 80" "y < 30" "\<not> (x = l + col \<and> y = t + row)"
  shows "cell (restore_cell (sc, sf, sb) l t row col b) x y = cell b x y"
proof -
  have n: "(x = l + col \<and> y = t + row) = False" using assms(7) by simp
  show ?thesis
    using assms(1-6)
    by (simp add: restore_cell_def Let_def grid_consts cell_put_char cell_put_colour
        length_put_char length_snd_put_char n)
qed

lemma cell_pos:
  fixes x y :: nat
  shows "x < 80 \<Longrightarrow> (x + y * 80) mod 80 = x" "x < 80 \<Longrightarrow> (x + y * 80) div 80 = y"
  by simp_all

lemma restore_region_cell:
  assumes "length (fst b) = 2400" "900 \<le> length (snd b)" "row < 12" "col < 34"
    "l + col < 80" "t + row < 30"
  shows "cell (restore_region (sc, sf, sb) l t b) (l + col) (t + row)
           = (sc ! row ! col, sf ! row ! col AND mask 6, sb ! row ! col AND mask 6)"
proof -
  define ks where "ks = List.product [0..<12] [0..<34 :: nat]"
  define pos where "pos = (\<lambda>k :: nat \<times> nat. (l + snd k) + (t + fst k) * 80)"
  define okk where "okk = (\<lambda>k :: nat \<times> nat. l + snd k < 80 \<and> t + fst k < 30)"
  define val where "val = (\<lambda>k :: nat \<times> nat. (sc ! fst k ! snd k, sf ! fst k ! snd k AND mask 6,
                                              sb ! fst k ! snd k AND mask 6))"
  define wr where "wr = (\<lambda>k :: nat \<times> nat. restore_cell (sc, sf, sb) l t (fst k) (snd k))"
  define get where "get = (\<lambda>(b :: backbuf) i. cell b (i mod 80) (i div 80))"
  define P where "P = (\<lambda>b :: backbuf. length (fst b) = 2400 \<and> 900 \<le> length (snd b))"
  have r: "restore_region (sc, sf, sb) l t b = fold wr ks b"
    by (simp add: restore_region_def MENU_BUFFER_WIDTH_def MENU_BUFFER_HEIGHT_def fold_product
        ks_def wr_def)
  have pm: "pos k mod 80 = l + snd k" "pos k div 80 = t + fst k" if "okk k" for k
  proof -
    have "l + snd k < 80" using that by (simp add: okk_def)
    then show "pos k mod 80 = l + snd k" "pos k div 80 = t + fst k"
      unfolding pos_def by (rule cell_pos)+
  qed
  have rc: "okk (row, col)" using assms(5,6) by (simp add: okk_def)
  have "get (fold wr ks b) (pos (row, col)) = val (row, col)"
  proof (rule fold_last_write [where P = P and okk = okk and dm = "\<lambda>i. i < 2400"])
    show "P (wr k st)" if "P st" for k st
      using that by (simp add: P_def wr_def restore_cell_lengths)
    show "get (wr k st) (pos k) = val k" if "P st" "okk k" for k st
      unfolding get_def pm [OF that(2)]
      using that restore_cell_same [of st l "snd k" t "fst k" sc sf sb]
      by (simp add: wr_def val_def P_def okk_def)
    show "get (wr k st) i = get st i" if "P st" "okk k" "i < 2400" "pos k \<noteq> i" for k st i
    proof -
      have "\<not> (i mod 80 = l + snd k \<and> i div 80 = t + fst k)"
        using that(4) unfolding pos_def by (metis mod_div_mult_eq)
      then show ?thesis
        using that(1-3) restore_cell_other [of st l "snd k" t "fst k" "i mod 80" "i div 80" sc sf sb]
        by (simp add: get_def wr_def P_def okk_def)
    qed
    show "wr k st = st" if "\<not> okk k" for k st
      using that by (auto simp add: wr_def okk_def restore_cell_def Let_def grid_consts)
    show "pos k < 2400" if "okk k" for k
      using that by (simp add: pos_def okk_def)
    show "P b" using assms(1,2) by (simp add: P_def)
    show "(row, col) \<in> set ks" using assms(3,4) by (simp add: ks_def)
    show "okk (row, col)" by (rule rc)
    show "\<forall>k'\<in>set ks. okk k' \<longrightarrow> pos k' = pos (row, col) \<longrightarrow> val k' = val (row, col)"
    proof (intro ballI impI)
      fix k' assume o: "okk k'" and p: "pos k' = pos (row, col)"
      have e: "(l + snd k') + (t + fst k') * 80 = (l + col) + (t + row) * 80"
        using p unfolding pos_def by (simp only: fst_conv snd_conv)
      have "l + snd k' < 80" using o by (simp add: okk_def)
      from cell_index [OF this assms(5), THEN iffD1, OF e]
      have "k' = (row, col)" by (cases k') simp
      then show "val k' = val (row, col)" by simp
    qed
  qed
  moreover have "get (fold wr ks b) (pos (row, col)) = cell (fold wr ks b) (l + col) (t + row)"
    unfolding get_def pm [OF rc] by simp
  ultimately show ?thesis
    by (simp add: r val_def)
qed


text \<open>The two digits of a colour menu, and ESC.\<close>

lemma two_digit_value:
  assumes "isdigit d1" "isdigit d2"
  shows "(d1 - 0x30) * 10 + (d2 - 0x30) = (of_nat (decimal_value [d1, d2]) :: byte)"
    and "decimal_value [d1, d2] < 100"
proof -
  have u: "unat (d1 - 0x30) = unat d1 - 48" "unat (d2 - 0x30) = unat d2 - 48"
    using assms by (simp_all add: isdigit_unat)
  have le: "unat d1 - 48 \<le> 9" "unat d2 - 48 \<le> 9"
    using assms by (auto simp add: isdigit_def word_le_nat_alt)
  have "(d1 - 0x30) * 10 + (d2 - 0x30) = of_nat (unat (d1 - 0x30) * 10 + unat (d2 - 0x30))"
    by simp
  then show "(d1 - 0x30) * 10 + (d2 - 0x30) = (of_nat (decimal_value [d1, d2]) :: byte)"
    unfolding u by (simp add: decimal_value_def)
  show "decimal_value [d1, d2] < 100"
    using le by (simp add: decimal_value_def)
qed

lemma small_colour: "v < 100 \<Longrightarrow> ((of_nat v :: byte) < 64) = (v < 64)"
  by (simp add: word_less_nat_alt unat_of_nat)

lemma fg_menu_first_digit:
  assumes "fg_color_menu_mode s" "\<not> escape_mode s" "color_menu_buf_len s = 0" "isdigit d"
  shows "handle_char oob d s =
           (prologue s)\<lparr>color_menu_buf := (color_menu_buf s)[0 := d], color_menu_buf_len := 1\<rparr>"
  using assms(1-3) digit_facts [OF assms(4)]
  by (simp add: handle_char_other dispatch_def handle_fg_color_menu_def Let_def prologue_nf)

lemma fg_menu_second_digit:
  assumes "fg_color_menu_mode s" "\<not> escape_mode s" "color_menu_buf_len s = 1" "isdigit d"
  shows "handle_char oob d s =
           (restore_menu_region
              (let s1 = (prologue s)\<lparr>color_menu_buf := (color_menu_buf s)[1 := d],
                                        color_menu_buf_len := 2\<rparr>
               in if color_menu_num s1 < 64 then s1\<lparr>current_fg := color_menu_num s1\<rparr> else s1))
             \<lparr>fg_color_menu_mode := False, color_menu_buf_len := 0\<rparr>"
  using assms(1-3) digit_facts [OF assms(4)]
  by (simp add: handle_char_other dispatch_def handle_fg_color_menu_def Let_def prologue_nf)

lemma fg_menu_escape:
  assumes "fg_color_menu_mode s" "\<not> escape_mode s"
  shows "handle_char oob 0x1B s =
           (restore_menu_region (prologue s))\<lparr>fg_color_menu_mode := False, color_menu_buf_len := 0\<rparr>"
  using assms
  by (simp add: handle_char_other dispatch_def handle_fg_color_menu_def Let_def prologue_nf)

lemma restored_state:
  assumes "length (charbuf_back s) = 2400" "length (colourbuf_back s) = 908"
    and "(charbuf_back s', colourbuf_back s')
           = restore_region (saved_chars s, saved_fg s, saved_bg s)
               (unat (menu_left s)) (unat (menu_top s)) (unpaint s)"
  shows "region_restored s s'"
proof -
  have l: "length (fst (unpaint s)) = 2400" "900 \<le> length (snd (unpaint s))"
    using assms(1,2) by (simp_all add: length_unpaint)
  show ?thesis
    unfolding region_restored_def assms(3)
    using restore_region_cell [OF l]
    by (simp add: MENU_BUFFER_HEIGHT_def MENU_BUFFER_WIDTH_def grid_consts)
qed

lemma fg_menu_two_digits:
  fixes oob :: stray_memory
  assumes "fg_color_menu_mode s" "\<not> escape_mode s" "color_menu_buf_len s = 0"
    "2 \<le> length (color_menu_buf s)" "isdigit d1" "isdigit d2"
  defines "F \<equiv> feed oob [d1, d2] s" and "v \<equiv> decimal_value [d1, d2]"
  shows "\<not> fg_color_menu_mode F" "color_menu_buf_len F = 0"
    "current_fg F = (if v < 64 then of_nat v else current_fg s)" "current_bg F = current_bg s"
    "(charbuf_back F, colourbuf_back F)
       = restore_region (saved_chars s, saved_fg s, saved_bg s)
           (unat (menu_left s)) (unat (menu_top s)) (unpaint s)"
    "charbuf_front F = charbuf_back F" "colourbuf_front F = colourbuf_back F"
proof -
  define t1 where "t1 = handle_char oob d1 s"
  have t1: "t1 = (prologue s)\<lparr>color_menu_buf := (color_menu_buf s)[0 := d1],
                               color_menu_buf_len := 1\<rparr>"
    unfolding t1_def by (rule fg_menu_first_digit [OF assms(1,2,3,5)])
  have m: "fg_color_menu_mode t1" "\<not> escape_mode t1" "color_menu_buf_len t1 = 1"
    using assms(1,2) by (simp_all add: t1 prologue_nf)
  define s1 where "s1 = (prologue t1)\<lparr>color_menu_buf := (color_menu_buf t1)[1 := d2],
                                       color_menu_buf_len := 2\<rparr>"
  have "color_menu_num s1 = (d1 - 0x30) * 10 + (d2 - 0x30)"
  proof -
    have "0 < length (color_menu_buf s)" "1 < length (color_menu_buf s)"
      using assms(4) by auto
    then show ?thesis by (simp add: color_menu_num_def s1_def t1 prologue_nf)
  qed
  then have num: "color_menu_num s1 = of_nat v"
    unfolding v_def by (simp only: two_digit_value(1) [OF assms(5,6)])
  have lt: "((of_nat v :: byte) < 64) = (v < 64)"
    unfolding v_def by (rule small_colour [OF two_digit_value(2) [OF assms(5,6)]])
  have "F = handle_char oob d2 t1" by (simp add: F_def feed_def t1_def)
  then have F: "F = (restore_menu_region
                       (if v < 64 then s1\<lparr>current_fg := of_nat v\<rparr> else s1))
                      \<lparr>fg_color_menu_mode := False, color_menu_buf_len := 0\<rparr>"
    unfolding fg_menu_second_digit [OF m assms(6)] Let_def s1_def [symmetric] num lt .
  have b: "(charbuf_back s1, colourbuf_back s1) = unpaint s" "current_fg s1 = current_fg s"
    "current_bg s1 = current_bg s" "saved_chars s1 = saved_chars s" "saved_fg s1 = saved_fg s"
    "saved_bg s1 = saved_bg s" "menu_left s1 = menu_left s" "menu_top s1 = menu_top s"
    by (simp_all add: s1_def t1 prologue_nf unpaint_not_drawn)
  show "\<not> fg_color_menu_mode F" "color_menu_buf_len F = 0"
    "current_fg F = (if v < 64 then of_nat v else current_fg s)" "current_bg F = current_bg s"
    "charbuf_front F = charbuf_back F" "colourbuf_front F = colourbuf_back F"
    using b(2,3) by (simp_all add: F restore_menu_region_nf)
  show "(charbuf_back F, colourbuf_back F)
       = restore_region (saved_chars s, saved_fg s, saved_bg s)
           (unat (menu_left s)) (unat (menu_top s)) (unpaint s)"
    using b by (cases "v < 64") (simp_all add: F restore_menu_region_nf)
qed

lemma fg_menu_cancel:
  fixes oob :: stray_memory
  assumes "fg_color_menu_mode s" "\<not> escape_mode s"
  defines "F \<equiv> handle_char oob 0x1B s"
  shows "\<not> fg_color_menu_mode F" "color_menu_buf_len F = 0"
    "current_fg F = current_fg s" "current_bg F = current_bg s"
    "(charbuf_back F, colourbuf_back F)
       = restore_region (saved_chars s, saved_fg s, saved_bg s)
           (unat (menu_left s)) (unat (menu_top s)) (unpaint s)"
    "charbuf_front F = charbuf_back F" "colourbuf_front F = colourbuf_back F"
  unfolding F_def fg_menu_escape [OF assms(1,2)]
  by (simp_all add: restore_menu_region_nf prologue_nf)


lemma bg_menu_first_digit:
  assumes "bg_color_menu_mode s" "\<not> escape_mode s" "color_menu_buf_len s = 0" "isdigit d"
    "\<not> fg_color_menu_mode s"
  shows "handle_char oob d s =
           (prologue s)\<lparr>color_menu_buf := (color_menu_buf s)[0 := d], color_menu_buf_len := 1\<rparr>"
  using assms(1-3,5) digit_facts [OF assms(4)]
  by (simp add: handle_char_other dispatch_def handle_bg_color_menu_def Let_def prologue_nf)

lemma bg_menu_second_digit:
  assumes "bg_color_menu_mode s" "\<not> escape_mode s" "color_menu_buf_len s = 1" "isdigit d"
    "\<not> fg_color_menu_mode s"
  shows "handle_char oob d s =
           (restore_menu_region
              (let s1 = (prologue s)\<lparr>color_menu_buf := (color_menu_buf s)[1 := d],
                                        color_menu_buf_len := 2\<rparr>
               in if color_menu_num s1 < 64 then s1\<lparr>current_bg := color_menu_num s1\<rparr> else s1))
             \<lparr>bg_color_menu_mode := False, color_menu_buf_len := 0\<rparr>"
  using assms(1-3,5) digit_facts [OF assms(4)]
  by (simp add: handle_char_other dispatch_def handle_bg_color_menu_def Let_def prologue_nf)

lemma bg_menu_escape:
  assumes "bg_color_menu_mode s" "\<not> escape_mode s" "\<not> fg_color_menu_mode s"
  shows "handle_char oob 0x1B s =
           (restore_menu_region (prologue s))\<lparr>bg_color_menu_mode := False, color_menu_buf_len := 0\<rparr>"
  using assms
  by (simp add: handle_char_other dispatch_def handle_bg_color_menu_def Let_def prologue_nf)

lemma bg_menu_two_digits:
  fixes oob :: stray_memory
  assumes "bg_color_menu_mode s" "\<not> escape_mode s" "color_menu_buf_len s = 0"
    "2 \<le> length (color_menu_buf s)" "isdigit d1" "isdigit d2" "\<not> fg_color_menu_mode s"
  defines "F \<equiv> feed oob [d1, d2] s" and "v \<equiv> decimal_value [d1, d2]"
  shows "\<not> bg_color_menu_mode F" "color_menu_buf_len F = 0"
    "current_bg F = (if v < 64 then of_nat v else current_bg s)" "current_fg F = current_fg s"
    "(charbuf_back F, colourbuf_back F)
       = restore_region (saved_chars s, saved_fg s, saved_bg s)
           (unat (menu_left s)) (unat (menu_top s)) (unpaint s)"
    "charbuf_front F = charbuf_back F" "colourbuf_front F = colourbuf_back F"
proof -
  define t1 where "t1 = handle_char oob d1 s"
  have t1: "t1 = (prologue s)\<lparr>color_menu_buf := (color_menu_buf s)[0 := d1],
                               color_menu_buf_len := 1\<rparr>"
    unfolding t1_def by (rule bg_menu_first_digit [OF assms(1,2,3,5,7)])
  have m: "bg_color_menu_mode t1" "\<not> escape_mode t1" "color_menu_buf_len t1 = 1"
    "\<not> fg_color_menu_mode t1"
    using assms(1,2,7) by (simp_all add: t1 prologue_nf)
  define s1 where "s1 = (prologue t1)\<lparr>color_menu_buf := (color_menu_buf t1)[1 := d2],
                                       color_menu_buf_len := 2\<rparr>"
  have "color_menu_num s1 = (d1 - 0x30) * 10 + (d2 - 0x30)"
  proof -
    have "0 < length (color_menu_buf s)" "1 < length (color_menu_buf s)"
      using assms(4) by auto
    then show ?thesis by (simp add: color_menu_num_def s1_def t1 prologue_nf)
  qed
  then have num: "color_menu_num s1 = of_nat v"
    unfolding v_def by (simp only: two_digit_value(1) [OF assms(5,6)])
  have lt: "((of_nat v :: byte) < 64) = (v < 64)"
    unfolding v_def by (rule small_colour [OF two_digit_value(2) [OF assms(5,6)]])
  have "F = handle_char oob d2 t1" by (simp add: F_def feed_def t1_def)
  then have F: "F = (restore_menu_region
                       (if v < 64 then s1\<lparr>current_bg := of_nat v\<rparr> else s1))
                      \<lparr>bg_color_menu_mode := False, color_menu_buf_len := 0\<rparr>"
    unfolding bg_menu_second_digit [OF m(1-3) assms(6) m(4)] Let_def s1_def [symmetric] num lt .
  have b: "(charbuf_back s1, colourbuf_back s1) = unpaint s" "current_bg s1 = current_bg s"
    "current_fg s1 = current_fg s" "saved_chars s1 = saved_chars s" "saved_fg s1 = saved_fg s"
    "saved_bg s1 = saved_bg s" "menu_left s1 = menu_left s" "menu_top s1 = menu_top s"
    by (simp_all add: s1_def t1 prologue_nf unpaint_not_drawn)
  show "\<not> bg_color_menu_mode F" "color_menu_buf_len F = 0"
    "current_bg F = (if v < 64 then of_nat v else current_bg s)" "current_fg F = current_fg s"
    "charbuf_front F = charbuf_back F" "colourbuf_front F = colourbuf_back F"
    using b(2,3) by (simp_all add: F restore_menu_region_nf)
  show "(charbuf_back F, colourbuf_back F)
       = restore_region (saved_chars s, saved_fg s, saved_bg s)
           (unat (menu_left s)) (unat (menu_top s)) (unpaint s)"
    using b by (cases "v < 64") (simp_all add: F restore_menu_region_nf)
qed

lemma bg_menu_cancel:
  fixes oob :: stray_memory
  assumes "bg_color_menu_mode s" "\<not> escape_mode s" "\<not> fg_color_menu_mode s"
  defines "F \<equiv> handle_char oob 0x1B s"
  shows "\<not> bg_color_menu_mode F" "color_menu_buf_len F = 0"
    "current_bg F = current_bg s" "current_fg F = current_fg s"
    "(charbuf_back F, colourbuf_back F)
       = restore_region (saved_chars s, saved_fg s, saved_bg s)
           (unat (menu_left s)) (unat (menu_top s)) (unpaint s)"
    "charbuf_front F = charbuf_back F" "colourbuf_front F = colourbuf_back F"
  unfolding F_def bg_menu_escape [OF assms(1-3)]
  by (simp_all add: restore_menu_region_nf prologue_nf)



lemma length_snd_draw_text: "length (snd (draw_text x y fg bg str b)) = length (snd b)"
  unfolding draw_text_def
  by (rule fold_snd_length) (simp add: length_snd_put_char length_snd_put_colour)

lemma length_snd_draw_box: "length (snd (draw_box x y w n down b)) = length (snd b)"
  by (simp add: draw_box_def Let_def length_snd_put_char fold_snd_length)

lemma length_snd_color_grid_cell:
  "length (snd (color_grid_cell x y row col b)) = length (snd b)"
  by (simp add: color_grid_cell_def Let_def length_snd_put_char length_snd_put_colour)

lemma length_snd_color_menu_paint:
  "length (snd (color_menu_paint x y fg bg title prompt b)) = length (snd b)"
  by (simp add: color_menu_paint_def Let_def length_snd_draw_text length_snd_draw_box
      length_snd_color_grid_cell fold_snd_length)

lemma fg_menu_open:
  defines "s \<equiv> handle_char zero_stray 0x06 main_init"
  shows "fg_color_menu_mode s" "\<not> escape_mode s" "color_menu_buf_len s = 0"
    "length (color_menu_buf s) = 3" "current_fg s = 12" "current_bg s = 0"
    "length (charbuf_back s) = CHAR_ROWS * CHAR_COLS"
    "length (colourbuf_back s) = 3 * COLOUR_PLANE_SIZE_WORDS + COLOUR_PAD_WORDS"
  unfolding s_def
  by (simp_all add: run_defs length_charbuf_set length_colourbuf_set length_clear_bufs
      length_snd_clear_bufs length_color_menu_paint length_snd_color_menu_paint
      put_char_def put_colour_def)

lemma bg_menu_open:
  defines "s \<equiv> handle_char zero_stray 0x02 main_init"
  shows "bg_color_menu_mode s" "\<not> fg_color_menu_mode s" "\<not> escape_mode s"
    "color_menu_buf_len s = 0"
    "length (color_menu_buf s) = 3" "current_fg s = 12" "current_bg s = 0"
    "length (charbuf_back s) = CHAR_ROWS * CHAR_COLS"
    "length (colourbuf_back s) = 3 * COLOUR_PLANE_SIZE_WORDS + COLOUR_PAD_WORDS"
  unfolding s_def
  by (simp_all add: run_defs length_charbuf_set length_colourbuf_set length_clear_bufs
      length_snd_clear_bufs length_color_menu_paint length_snd_color_menu_paint
      put_char_def put_colour_def)

section \<open>Proofs: line endings\<close>

text \<open>
  C9. Carriage-return suppression: in Normal state with no suppression flag armed, CR
  advances to a new line and arms \<^verbatim>\<open>skip_next_lf\<close> and \<^verbatim>\<open>suppress_next_cr\<close>. The line
  advance, cell by cell: the cursor goes to column 0 of the next row and the screen keeps
  what it showed once the old cursor glyph is taken off; or, from the last row, the
  cursor stays on the last row, every row moves up by one and the last row is blank in
  the current colours. In both cases the cursor glyph is painted at the new cursor
  position when the cursor is visible, and the front buffers receive the result. A CR or
  an LF that follows immediately is consumed: \<^verbatim>\<open>handle_char\<close> only takes the drawn
  cursor glyph off and clears the flag it used, so the cursor position stays and no
  second line advance happens. Hence CR LF and CR CR each advance the line exactly once.
\<close>

theorem cr_suppression:
  assumes "normal_mode s" and "\<not> skip_next_lf s" and "\<not> skip_next_cr s"
    and "\<not> suppress_next_cr s"
  shows "(let s1 = handle_char oob 0x0D s;
              scrolls = (unat (cursor_y s + 1) \<ge> CHAR_ROWS);
              before = (charbuf_back (remove_cursor s), colourbuf_back (remove_cursor s)) in
          cursor_x s1 = 0 \<and>
          cursor_y s1 = (if scrolls then of_nat (CHAR_ROWS - 1) else cursor_y s + 1) \<and>
          (length (charbuf_back s) = CHAR_ROWS * CHAR_COLS \<and>
           length (colourbuf_back s) = 3 * COLOUR_PLANE_SIZE_WORDS + COLOUR_PAD_WORDS \<longrightarrow>
             (\<forall>x<CHAR_COLS. \<forall>y<CHAR_ROWS.
                cell (charbuf_back s1, colourbuf_back s1) x y =
                  (if cursor_visible s \<and> x = 0 \<and> y = unat (cursor_y s1)
                   then (cursor_glyph (current_cursor s),
                         current_fg s AND mask 6, current_bg s AND mask 6)
                   else if \<not> scrolls then cell before x y
                   else if y + 1 < CHAR_ROWS then cell before x (y + 1)
                   else (0x20, current_fg s AND mask 6, current_bg s AND mask 6)))) \<and>
          charbuf_front s1 = charbuf_back s1 \<and> colourbuf_front s1 = colourbuf_back s1 \<and>
          skip_next_lf s1 \<and> suppress_next_cr s1 \<and>
          handle_char oob 0x0D s1 = (remove_cursor s1)\<lparr>suppress_next_cr := False\<rparr> \<and>
          handle_char oob 0x0A s1
            = (remove_cursor s1)\<lparr>suppress_next_cr := False, skip_next_lf := False\<rparr> \<and>
          cursor_x (handle_char oob 0x0D s1) = cursor_x s1 \<and>
          cursor_y (handle_char oob 0x0D s1) = cursor_y s1 \<and>
          cursor_x (handle_char oob 0x0A s1) = cursor_x s1 \<and>
          cursor_y (handle_char oob 0x0A s1) = cursor_y s1)"
proof -
  define s1 where "s1 = handle_char oob 0x0D s"
  have s1: "s1 = safe_request_swap (redraw_cursor oob
             ((new_line (prologue s))\<lparr>skip_next_lf := True, suppress_next_cr := True\<rparr>))"
    unfolding s1_def by (rule cr_in_normal_mode [OF assms(1,3,4)])
  have x: "cursor_x s1 = 0"
    unfolding s1 by (simp add: safe_request_swap_nf redraw_cursor_nf new_line_nf)
  have y: "cursor_y s1 = (if unat (cursor_y s + 1) \<ge> CHAR_ROWS then of_nat (CHAR_ROWS - 1)
                         else cursor_y s + 1)"
    unfolding s1 by (simp add: safe_request_swap_nf redraw_cursor_nf new_line_nf wraps_line_def prologue_nf)
  have cells: "cell (charbuf_back s1, colourbuf_back s1) x y =
                  (if cursor_visible s \<and> x = 0 \<and> y = unat (cursor_y s1)
                   then (cursor_glyph (current_cursor s),
                         current_fg s AND mask 6, current_bg s AND mask 6)
                   else if \<not> unat (cursor_y s + 1) \<ge> CHAR_ROWS
                   then cell (charbuf_back (remove_cursor s), colourbuf_back (remove_cursor s)) x y
                   else if y + 1 < CHAR_ROWS
                   then cell (charbuf_back (remove_cursor s), colourbuf_back (remove_cursor s)) x (y + 1)
                   else (0x20, current_fg s AND mask 6, current_bg s AND mask 6))"
    if "length (charbuf_back s) = CHAR_ROWS * CHAR_COLS"
      "length (colourbuf_back s) = 3 * COLOUR_PLANE_SIZE_WORDS + COLOUR_PAD_WORDS"
      "x < CHAR_COLS" "y < CHAR_ROWS" for x y
  proof -
    have h: "length (charbuf_back s) = 2400" "length (colourbuf_back s) = 908" "x < 80" "y < 30"
      using that by (simp_all add: grid_consts)
    show ?thesis
      unfolding s1_def remove_cursor_back
      using cr_cells [OF assms(1,3,4) h, of oob]
      by (simp add: wraps_line_def grid_consts)
  qed
  have fr: "charbuf_front s1 = charbuf_back s1" "colourbuf_front s1 = colourbuf_back s1"
    unfolding s1_def by (rule cr_buffers(2,3) [OF assms(1,3,4)])+
  have fl: "skip_next_lf s1" "suppress_next_cr s1" "input_active s1"
    unfolding s1 by (simp_all add: safe_request_swap_nf redraw_cursor_nf new_line_nf prologue_nf)
  have ia: "s1\<lparr>input_active := True\<rparr> = s1" by (rule input_active_idem [OF fl(3)])
  have cr: "handle_char oob 0x0D s1 = (remove_cursor s1)\<lparr>suppress_next_cr := False\<rparr>"
    using fl(2) by (simp add: handle_char_cr ia)
  have lf: "handle_char oob 0x0A s1
      = (remove_cursor s1)\<lparr>suppress_next_cr := False, skip_next_lf := False\<rparr>"
    using fl(1) by (simp add: handle_char_lf ia)
  have xy: "cursor_x (handle_char oob 0x0D s1) = cursor_x s1"
    "cursor_y (handle_char oob 0x0D s1) = cursor_y s1"
    "cursor_x (handle_char oob 0x0A s1) = cursor_x s1"
    "cursor_y (handle_char oob 0x0A s1) = cursor_y s1"
    unfolding cr lf by (simp_all add: remove_cursor_nf)
  have c: "length (charbuf_back s) = CHAR_ROWS * CHAR_COLS \<and>
           length (colourbuf_back s) = 3 * COLOUR_PLANE_SIZE_WORDS + COLOUR_PAD_WORDS \<longrightarrow>
             (\<forall>x<CHAR_COLS. \<forall>y<CHAR_ROWS.
                cell (charbuf_back s1, colourbuf_back s1) x y =
                  (if cursor_visible s \<and> x = 0 \<and> y = unat (cursor_y s1)
                   then (cursor_glyph (current_cursor s),
                         current_fg s AND mask 6, current_bg s AND mask 6)
                   else if \<not> unat (cursor_y s + 1) \<ge> CHAR_ROWS
                   then cell (charbuf_back (remove_cursor s), colourbuf_back (remove_cursor s)) x y
                   else if y + 1 < CHAR_ROWS
                   then cell (charbuf_back (remove_cursor s), colourbuf_back (remove_cursor s)) x (y + 1)
                   else (0x20, current_fg s AND mask 6, current_bg s AND mask 6)))"
    by (intro impI allI, elim conjE, rule cells) assumption+
  show ?thesis
    unfolding s1_def [symmetric] Let_def
    using x y c fr fl(1,2) cr lf xy by (intro conjI) assumption+
qed

theorem cr_suppression_witness:
  "(let s = feed zero_stray [0x1B, 0x5B, 0x33, 0x30, 0x48, 0x41] main_init;
        s1 = handle_char zero_stray 0x0D s in
     cursor_x s = 1 \<and> cursor_y s = 29 \<and>
     cell (charbuf_back (remove_cursor s), colourbuf_back (remove_cursor s)) 0 29 = (0x41, 12, 0) \<and>
     cursor_x s1 = 0 \<and> cursor_y s1 = 29 \<and>
     cell (charbuf_back s1, colourbuf_back s1) 0 28 = (0x41, 12, 0) \<and>
     cell (charbuf_back s1, colourbuf_back s1) 1 29 = (0x20, 12, 0) \<and>
     cell (charbuf_back s1, colourbuf_back s1) 0 29 = (0x40, 12, 0) \<and>
     skip_next_lf s1 \<and> suppress_next_cr s1 \<and>
     cursor_x (handle_char zero_stray 0x0D s1) = 0 \<and>
     cursor_y (handle_char zero_stray 0x0D s1) = 29 \<and>
     cursor_x (handle_char zero_stray 0x0A s1) = 0 \<and>
     cursor_y (handle_char zero_stray 0x0A s1) = 29)"
proof -
  define s5 where "s5 = feed zero_stray [0x1B, 0x5B, 0x33, 0x30, 0x48] main_init"
  define s where "s = feed zero_stray [0x1B, 0x5B, 0x33, 0x30, 0x48, 0x41] main_init"
  define s1 where "s1 = handle_char zero_stray 0x0D s"
  note s5 = last_row_state [folded s5_def]
  note m5 = s5(1) [unfolded normal_mode_def]
  have "s = handle_char zero_stray 0x41 s5" by (simp add: s_def s5_def feed_def)
  then have hs: "s = safe_request_swap (redraw_cursor zero_stray (handle_key 0x41 (prologue s5)))"
    using s5(1) by (simp add: handle_char_other dispatch_normal normal_mode_prologue)
  have f: "normal_mode s" "\<not> skip_next_lf s" "\<not> skip_next_cr s" "\<not> suppress_next_cr s"
    unfolding hs normal_mode_def using m5 s5(2-8)
    by (simp_all add: safe_request_swap_nf redraw_cursor_nf handle_key_def Let_def set_char_nf
        set_colour_nf prologue_nf grid_consts)
  have g: "cursor_x s = 1" "cursor_y s = 29" "cursor_visible s" "current_fg s = 12"
    "current_bg s = 0" "current_cursor s = CURSOR_APPLE_I"
    unfolding hs using m5 s5(2-8)
    by (simp_all add: safe_request_swap_nf redraw_cursor_nf handle_key_def Let_def set_char_nf
        set_colour_nf prologue_nf grid_consts)
  have l: "length (charbuf_back s) = CHAR_ROWS * CHAR_COLS"
    "length (colourbuf_back s) = 3 * COLOUR_PLANE_SIZE_WORDS + COLOUR_PAD_WORDS"
    unfolding hs using m5 s5(2-10)
    by (simp_all add: safe_request_swap_nf redraw_cursor_nf handle_key_def Let_def set_char_nf
        set_colour_nf prologue_nf grid_consts redraw_on_def painted_def unpaint_not_drawn
        length_put_char length_put_colour length_snd_put_char length_snd_put_colour
        length_charbuf_set length_colourbuf_set)
  have b: "cell (charbuf_back (remove_cursor s), colourbuf_back (remove_cursor s)) 0 29
             = (0x41, 12, 0)"
    unfolding remove_cursor_back hs using m5 s5(2-10)
    by (simp add: safe_request_swap_nf redraw_cursor_nf handle_key_def Let_def set_char_nf
        set_colour_nf prologue_nf grid_consts redraw_on_def painted_def unpaint_not_drawn
        unpaint_alt uint_of_int_uint cell_def charbuf_set_nth colourbuf_get_set_nth
        fst_put_char snd_put_char fst_put_colour snd_put_colour
        length_charbuf_set length_colourbuf_set mask_6 uint_of_int_def)
  note t = cr_suppression [OF f, of zero_stray, unfolded Let_def, folded s1_def]
  have y1: "cursor_y s1 = 29" using t g(2) by (simp add: grid_consts)
  have cells: "\<forall>x<CHAR_COLS. \<forall>y<CHAR_ROWS.
      cell (charbuf_back s1, colourbuf_back s1) x y =
        (if cursor_visible s \<and> x = 0 \<and> y = unat (cursor_y s1)
         then (cursor_glyph (current_cursor s), current_fg s AND mask 6, current_bg s AND mask 6)
         else if \<not> unat (cursor_y s + 1) \<ge> CHAR_ROWS
         then cell (charbuf_back (remove_cursor s), colourbuf_back (remove_cursor s)) x y
         else if y + 1 < CHAR_ROWS
         then cell (charbuf_back (remove_cursor s), colourbuf_back (remove_cursor s)) x (y + 1)
         else (0x20, current_fg s AND mask 6, current_bg s AND mask 6))"
    using t l by blast
  have c: "cell (charbuf_back s1, colourbuf_back s1) 0 28 = (0x41, 12, 0)"
    "cell (charbuf_back s1, colourbuf_back s1) 1 29 = (0x20, 12, 0)"
    "cell (charbuf_back s1, colourbuf_back s1) 0 29 = (0x40, 12, 0)"
    using cells [rule_format, of 0 28] cells [rule_format, of 1 29] cells [rule_format, of 0 29]
    by (simp_all add: g y1 b grid_consts mask_6 cursor_glyph_def)
  from t have r: "skip_next_lf s1" "suppress_next_cr s1" "cursor_x s1 = 0"
    "cursor_x (handle_char zero_stray 0x0D s1) = cursor_x s1"
    "cursor_y (handle_char zero_stray 0x0D s1) = cursor_y s1"
    "cursor_x (handle_char zero_stray 0x0A s1) = cursor_x s1"
    "cursor_y (handle_char zero_stray 0x0A s1) = cursor_y s1"
    by blast+
  show ?thesis
    unfolding Let_def s_def [symmetric] s1_def [symmetric]
    using g(1,2) b y1 c r by simp
qed
section \<open>Proofs: the cursor and the menus\<close>




section \<open>Proofs: the cursor and the grid\<close>

text \<open>
  C4 (the code at the failing input). From the initial state the bytes
  \<^verbatim>\<open>ESC [ 9 9 ; 9 9 H\<close> put the cursor at row 98, column 98, outside the grid of 30 rows
  and 80 columns: case \<^verbatim>\<open>'H'\<close> stores the parameters minus one without an upper bound.
\<close>

theorem csi_H_leaves_grid:
  "cursor_y (feed oob [0x1B, 0x5B, 0x39, 0x39, 0x3B, 0x39, 0x39, 0x48] main_init) = 98 \<and>
   cursor_x (feed oob [0x1B, 0x5B, 0x39, 0x39, 0x3B, 0x39, 0x39, 0x48] main_init) = 98 \<and>
   \<not> (98 < CHAR_ROWS) \<and> \<not> (98 < CHAR_COLS)"
  by (simp add: run_defs)

section \<open>Proofs: cursor positioning\<close>

text \<open>
  What CSI H does with the parameters it is given. For \<^verbatim>\<open>ESC [ p1 ; p2 H\<close> received in
  Normal state, with \<open>p1\<close> at most 30 and \<open>p2\<close> at most 80, each written with at most 15
  digits (the digit buffer holds no more): the row becomes \<open>p1 - 1\<close>, or 0 when \<open>p1\<close> is
  0 or has no digits, and the column becomes \<open>p2 - 1\<close>, or 0 when \<open>p2\<close> is 0. With no
  digits after the last semicolon, or with no semicolon, the column stays as it is.
\<close>

lemma csi_H_effect:
  assumes "normal_mode s" and "length (ansi_buffer s) = 16" and "length (ansi_params s) = 4"
    and "list_all isdigit ds1" and "length ds1 \<le> 15" and "decimal_value ds1 \<le> CHAR_ROWS"
    and "list_all isdigit ds2" and "length ds2 \<le> 15" and "decimal_value ds2 \<le> CHAR_COLS"
  shows "cursor_y (feed oob ([0x1B, 0x5B] @ ds1 @ [0x3B] @ ds2 @ [0x48]) s) = csi_coord (decimal_value ds1) \<and>
         cursor_x (feed oob ([0x1B, 0x5B] @ ds1 @ [0x3B] @ ds2 @ [0x48]) s)
           = (if ds2 = [] then cursor_x s else csi_coord (decimal_value ds2)) \<and>
         cursor_y (feed oob ([0x1B, 0x5B] @ ds1 @ [0x48]) s)
           = (if ds1 = [] then cursor_y s else csi_coord (decimal_value ds1)) \<and>
         cursor_x (feed oob ([0x1B, 0x5B] @ ds1 @ [0x48]) s) = cursor_x s"
proof -
  let ?a = "feed oob [0x1B, 0x5B] s"
  note fa = parser_ofD [OF parser_csi_open [OF assms(1), of oob]]
  have a: "escape_mode ?a" "ansi_mode ?a" "ansi_buf_len ?a = 0" "unat (ansi_param_count ?a) < 4"
    "length (ansi_buffer ?a) = 16" "ansi_param_count ?a = 0" "length (ansi_params ?a) = 4"
    "cursor_x ?a = cursor_x s" "cursor_y ?a = cursor_y s"
    using fa assms(2,3) by (simp_all add: parser_of_def)
  have v1: "decimal_value ds1 \<le> 2 ^ 31 - 1" "decimal_value ds1 \<le> 255"
    and v2: "decimal_value ds2 \<le> 2 ^ 31 - 1" "decimal_value ds2 \<le> 255"
    using assms(6,9) by (simp_all add: grid_consts)
  \<comment> \<open>one parameter\<close>
  obtain t where t: "feed oob (ds1 @ [0x48]) ?a
        = (process_ansi_sequence
             (if ds1 = [] then ansi_params ?a
              else (ansi_params ?a)[unat (ansi_param_count ?a) := word_of_nat (decimal_value ds1)])
             (if ds1 = [] then ansi_param_count ?a else ansi_param_count ?a + 1) 0x48 t)
            \<lparr>escape_mode := False, ansi_mode := False\<rparr>"
      "cursor_x t = cursor_x ?a" "cursor_y t = cursor_y ?a"
    using csi_dispatch [OF a(1,2,3,4,5) assms(4,5) v1(1) csi_final_H(1), of oob] by blast
  have d1: "feed oob ([0x1B, 0x5B] @ ds1 @ [0x48]) s = feed oob (ds1 @ [0x48]) ?a"
    by (rule feed_append)
  have one: "cursor_y (feed oob ([0x1B, 0x5B] @ ds1 @ [0x48]) s)
           = (if ds1 = [] then cursor_y s else csi_coord (decimal_value ds1))"
    "cursor_x (feed oob ([0x1B, 0x5B] @ ds1 @ [0x48]) s) = cursor_x s"
    unfolding d1 t(1)
    using a(6,7,8,9) t(2,3)
    by (simp_all add: csi_H_cursor csi_coord_alt param_minus_one [OF v1(2)])
  \<comment> \<open>two parameters\<close>
  let ?b = "feed oob (ds1 @ [0x3B]) ?a"
  note fb = parser_ofD [OF parser_param [OF a(1,2,3,4,5) assms(4,5) v1(1), of oob]]
  have b: "escape_mode ?b" "ansi_mode ?b" "ansi_buf_len ?b = 0" "unat (ansi_param_count ?b) < 4"
    "length (ansi_buffer ?b) = 16" "ansi_param_count ?b = 1"
    "ansi_params ?b = (ansi_params ?a)[0 := word_of_nat (decimal_value ds1)]"
    "cursor_x ?b = cursor_x s" "cursor_y ?b = cursor_y s"
    using fb a assms(5) by (simp_all add: parser_of_def)
  obtain u where u: "feed oob (ds2 @ [0x48]) ?b
        = (process_ansi_sequence
             (if ds2 = [] then ansi_params ?b
              else (ansi_params ?b)[unat (ansi_param_count ?b) := word_of_nat (decimal_value ds2)])
             (if ds2 = [] then ansi_param_count ?b else ansi_param_count ?b + 1) 0x48 u)
            \<lparr>escape_mode := False, ansi_mode := False\<rparr>"
      "cursor_x u = cursor_x ?b" "cursor_y u = cursor_y ?b"
    using csi_dispatch [OF b(1,2,3,4,5) assms(7,8) v2(1) csi_final_H(1), of oob] by blast
  have "feed oob ([0x1B, 0x5B] @ (ds1 @ [0x3B]) @ (ds2 @ [0x48])) s = feed oob (ds2 @ [0x48]) ?b"
    unfolding feed_append ..
  then have d2: "feed oob ([0x1B, 0x5B] @ ds1 @ [0x3B] @ ds2 @ [0x48]) s = feed oob (ds2 @ [0x48]) ?b"
    by simp
  have two: "cursor_y (feed oob ([0x1B, 0x5B] @ ds1 @ [0x3B] @ ds2 @ [0x48]) s)
           = csi_coord (decimal_value ds1)"
    "cursor_x (feed oob ([0x1B, 0x5B] @ ds1 @ [0x3B] @ ds2 @ [0x48]) s)
           = (if ds2 = [] then cursor_x s else csi_coord (decimal_value ds2))"
    unfolding d2 u(1)
    using a(7) b(6,7,8,9) u(2,3)
    by (simp_all add: csi_H_cursor csi_coord_alt param_minus_one [OF v1(2)]
        param_minus_one [OF v2(2)])
  from one two show ?thesis by simp
qed

lemma csi_H_effect_example:
  "cursor_y (feed zero_stray [0x1B, 0x5B, 0x35, 0x3B, 0x31, 0x30, 0x48] main_init) = 4 \<and>
   cursor_x (feed zero_stray [0x1B, 0x5B, 0x35, 0x3B, 0x31, 0x30, 0x48] main_init) = 9 \<and>
   cursor_y (feed zero_stray [0x1B, 0x5B, 0x35, 0x48] main_init) = 4 \<and>
   cursor_x (feed zero_stray [0x1B, 0x5B, 0x35, 0x48] main_init) = 0"
  using csi_H_effect [of main_init "[0x35]" "[0x31, 0x30]" zero_stray]
  by (simp add: main_init_fields isdigit_def decimal_value_def csi_coord_def grid_consts)

text \<open>
  C6 (the code at the failing input). After a line feed and two letters the cursor is at
  row 1, column 2. The sequence \<^verbatim>\<open>ESC [ H\<close>, with no parameters, leaves it there instead
  of moving it to row 0, column 0: case \<^verbatim>\<open>'H'\<close> assigns the row only when a first
  parameter was committed and the column only when a second was. From the same state
  \<^verbatim>\<open>ESC [ 1 ; 1 H\<close> does move the cursor to row 0, column 0, and \<^verbatim>\<open>ESC [ A\<close>, whose
  case defaults an absent parameter to 1, moves it up by one row.
\<close>

theorem csi_H_without_parameters:
  "cursor_x (feed zero_stray [0x0A, 0x41, 0x42] main_init) = 2 \<and>
   cursor_y (feed zero_stray [0x0A, 0x41, 0x42] main_init) = 1 \<and>
   cursor_x (feed zero_stray [0x0A, 0x41, 0x42, 0x1B, 0x5B, 0x48] main_init) = 2 \<and>
   cursor_y (feed zero_stray [0x0A, 0x41, 0x42, 0x1B, 0x5B, 0x48] main_init) = 1 \<and>
   cursor_x (feed zero_stray [0x0A, 0x41, 0x42, 0x1B, 0x5B, 0x31, 0x3B, 0x31, 0x48] main_init) = 0 \<and>
   cursor_y (feed zero_stray [0x0A, 0x41, 0x42, 0x1B, 0x5B, 0x31, 0x3B, 0x31, 0x48] main_init) = 0 \<and>
   cursor_x (feed zero_stray [0x0A, 0x41, 0x42, 0x1B, 0x5B, 0x41] main_init) = 2 \<and>
   cursor_y (feed zero_stray [0x0A, 0x41, 0x42, 0x1B, 0x5B, 0x41] main_init) = 0"
  by (simp add: run_defs)
section \<open>Proofs: the width of a CSI parameter\<close>

text \<open>
  C10 (as amended). Each committed CSI parameter is stored in an 8-bit cell: for a digit
  string of at most 15 digits whose value \<open>v\<close> is at most \<open>2^31 - 1\<close> (so that it fits
  the \<^verbatim>\<open>int\<close> that \<^verbatim>\<open>atoi\<close> returns), the parameter committed by a semicolon or by the
  final byte equals \<open>v mod 256\<close>; and \<^verbatim>\<open>ESC [ v C\<close> moves the cursor forward by
  \<open>v mod 256\<close> columns (by one when that is 0), up to the last column, so that
  \<^verbatim>\<open>ESC [ 257 C\<close> moves it by 1.
\<close>

theorem csi_param_width:
  assumes "escape_mode s" and "ansi_mode s" and "ansi_buf_len s = 0"
    and "unat (ansi_param_count s) < ANSI_PARAM_MAX"
    and "length (ansi_buffer s) = 16" and "length (ansi_params s) = ANSI_PARAM_MAX"
    and "list_all isdigit ds" and "length ds \<le> 15" and "decimal_value ds \<le> 2 ^ 31 - 1"
  shows "unat (ansi_params (feed oob (ds @ [0x3B]) s) ! unat (ansi_param_count s))
           = decimal_value ds mod 256 \<and>
         ansi_param_count (feed oob (ds @ [0x3B]) s) = ansi_param_count s + 1 \<and>
         (ds \<noteq> [] \<and> csi_final c \<longrightarrow>
            unat (ansi_params (feed oob (ds @ [c]) s) ! unat (ansi_param_count s))
              = decimal_value ds mod 256) \<and>
         (ds \<noteq> [] \<and> ansi_param_count s = 0 \<longrightarrow>
            cursor_x (feed oob (ds @ [0x43]) s)
              = (let n = (if decimal_value ds mod 256 = 0 then 1 else decimal_value ds mod 256)
                 in if unat (cursor_x s) + n < CHAR_COLS then cursor_x s + of_nat n
                    else of_nat (CHAR_COLS - 1)))"
proof -
  have k: "unat (ansi_param_count s) < 4" "unat (ansi_param_count s) < length (ansi_params s)"
    using assms(4,6) by (simp_all add: ANSI_PARAM_MAX_def)
  have w: "unat (word_of_nat (decimal_value ds) :: byte) = decimal_value ds mod 256"
    by (simp add: unat_of_nat)
  note fp = parser_ofD [OF parser_param [OF assms(1,2,3) k(1) assms(5,7,8,9), of oob]]
  have semi: "unat (ansi_params (feed oob (ds @ [0x3B]) s) ! unat (ansi_param_count s))
           = decimal_value ds mod 256"
    "ansi_param_count (feed oob (ds @ [0x3B]) s) = ansi_param_count s + 1"
    using fp(5,6) k(2) w by (simp_all add: parser_of_def)
  have fin: "unat (ansi_params (feed oob (ds @ [c]) s) ! unat (ansi_param_count s))
              = decimal_value ds mod 256" if nz: "ds \<noteq> []" and fc: "csi_final c"
  proof -
    obtain t where t: "feed oob (ds @ [c]) s
        = (process_ansi_sequence
             (if ds = [] then ansi_params s
              else (ansi_params s)[unat (ansi_param_count s) := word_of_nat (decimal_value ds)])
             (if ds = [] then ansi_param_count s else ansi_param_count s + 1) c t)
            \<lparr>escape_mode := False, ansi_mode := False\<rparr>"
      "ansi_params t = (if ds = [] then ansi_params s
              else (ansi_params s)[unat (ansi_param_count s) := word_of_nat (decimal_value ds)])"
      using csi_dispatch [OF assms(1,2,3) k(1) assms(5,7,8,9) fc, of oob] by blast
    show ?thesis
      unfolding t(1) using nz k(2) w by (simp add: params_after_sequence t(2))
  qed
  have fwd: "cursor_x (feed oob (ds @ [0x43]) s)
              = (let n = (if decimal_value ds mod 256 = 0 then 1 else decimal_value ds mod 256)
                 in if unat (cursor_x s) + n < CHAR_COLS then cursor_x s + of_nat n
                    else of_nat (CHAR_COLS - 1))" if nz: "ds \<noteq> []" and c0: "ansi_param_count s = 0"
  proof -
    obtain t where t: "feed oob (ds @ [0x43]) s
        = (process_ansi_sequence
             (if ds = [] then ansi_params s
              else (ansi_params s)[unat (ansi_param_count s) := word_of_nat (decimal_value ds)])
             (if ds = [] then ansi_param_count s else ansi_param_count s + 1) 0x43 t)
            \<lparr>escape_mode := False, ansi_mode := False\<rparr>"
      "cursor_x t = cursor_x s"
      using csi_dispatch [OF assms(1,2,3) k(1) assms(5,7,8,9) csi_final_H(2), of oob] by blast
    have z: "((word_of_nat (decimal_value ds) :: byte) > 0) = (decimal_value ds mod 256 \<noteq> 0)"
      using w by (simp add: word_greater_zero_iff unat_eq_zero [symmetric] del: unat_eq_zero)
    have uc: "(ucast (word_of_nat (decimal_value ds) :: byte) :: 16 word)
              = word_of_nat (decimal_value ds mod 256)"
      by (simp add: unsigned_of_nat take_bit_eq_mod)
    show ?thesis
      unfolding t(1) using nz c0 k(2) w
      by (simp add: csi_C_cursor t(2) z uc Let_def)
  qed
  from semi fin fwd show ?thesis by blast
qed

theorem csi_param_width_witness:
  "unat (ansi_params (feed zero_stray ([0x32, 0x35, 0x37] @ [0x3B]) (feed zero_stray [0x1B, 0x5B] main_init)) ! 0) = 1 \<and>
   unat (ansi_params (feed zero_stray ([0x32, 0x35, 0x37] @ [0x43]) (feed zero_stray [0x1B, 0x5B] main_init)) ! 0) = 1 \<and>
   cursor_x (feed zero_stray ([0x32, 0x35, 0x37] @ [0x43]) (feed zero_stray [0x1B, 0x5B] main_init)) = 1"
proof -
  have s: "escape_mode (feed zero_stray [0x1B, 0x5B] main_init)"
    "ansi_mode (feed zero_stray [0x1B, 0x5B] main_init)"
    "ansi_buf_len (feed zero_stray [0x1B, 0x5B] main_init) = 0"
    "ansi_param_count (feed zero_stray [0x1B, 0x5B] main_init) = 0"
    "length (ansi_buffer (feed zero_stray [0x1B, 0x5B] main_init)) = 16"
    "length (ansi_params (feed zero_stray [0x1B, 0x5B] main_init)) = 4"
    "cursor_x (feed zero_stray [0x1B, 0x5B] main_init) = 0"
    by (simp_all add: run_defs)
  show ?thesis
    using csi_param_width [of "feed zero_stray [0x1B, 0x5B] main_init" "[0x32, 0x35, 0x37]"
        zero_stray "0x43"] s
    by (simp add: ANSI_PARAM_MAX_def isdigit_def decimal_value_def csi_final_def grid_consts)
qed

text \<open>
  The claim as stated fails for values beyond \<open>2^31 - 1\<close>: \<^verbatim>\<open>atoi\<close> clamps
  3000000000 to \<open>2^31 - 1\<close>, whose low byte is 255, while 3000000000 mod 256 is 0.
\<close>

theorem csi_param_width_counterexample:
  "unat (ansi_params (feed zero_stray
           [0x1B, 0x5B, 0x33, 0x30, 0x30, 0x30, 0x30, 0x30, 0x30, 0x30, 0x30, 0x30, 0x3B]
           main_init) ! 0) = 255 \<and>
   decimal_value [0x33, 0x30, 0x30, 0x30, 0x30, 0x30, 0x30, 0x30, 0x30, 0x30] mod 256 = 0"
  by (simp add: run_defs decimal_value_def)

section \<open>Proofs: the colour menus\<close>

text \<open>
  C7 (as amended). Colour-pick modes: in foreground (resp. background) colour-pick mode
  with no digit accumulated, two digits of value \<open>v\<close> exit the mode and restore the saved
  screen region; they set the current foreground (resp. background) colour to \<open>v\<close> when
  \<open>v\<close> is in 0..63, and leave both colours as they were when \<open>v\<close> is 64 or more. ESC
  exits the mode and restores the region without changing a colour. (The background
  mode is reached only when the foreground mode is off, which \<^verbatim>\<open>handle_char\<close> tests
  first.)
\<close>

theorem color_pick:
  assumes "\<not> escape_mode s" and "color_menu_buf_len s = 0"
    and "length (color_menu_buf s) = 3" and "isdigit d1" and "isdigit d2"
    and "length (charbuf_back s) = CHAR_ROWS * CHAR_COLS"
    and "length (colourbuf_back s) = 3 * COLOUR_PLANE_SIZE_WORDS + COLOUR_PAD_WORDS"
  shows "(fg_color_menu_mode s \<longrightarrow>
            (let s2 = feed oob [d1, d2] s; v = decimal_value [d1, d2] in
               \<not> fg_color_menu_mode s2 \<and> color_menu_buf_len s2 = 0 \<and> region_restored s s2 \<and>
               current_fg s2 = (if v < 64 then of_nat v else current_fg s) \<and>
               current_bg s2 = current_bg s) \<and>
            (let s2 = handle_char oob 0x1B s in
               \<not> fg_color_menu_mode s2 \<and> color_menu_buf_len s2 = 0 \<and> region_restored s s2 \<and>
               current_fg s2 = current_fg s \<and> current_bg s2 = current_bg s)) \<and>
         (bg_color_menu_mode s \<and> \<not> fg_color_menu_mode s \<longrightarrow>
            (let s2 = feed oob [d1, d2] s; v = decimal_value [d1, d2] in
               \<not> bg_color_menu_mode s2 \<and> color_menu_buf_len s2 = 0 \<and> region_restored s s2 \<and>
               current_bg s2 = (if v < 64 then of_nat v else current_bg s) \<and>
               current_fg s2 = current_fg s) \<and>
            (let s2 = handle_char oob 0x1B s in
               \<not> bg_color_menu_mode s2 \<and> color_menu_buf_len s2 = 0 \<and> region_restored s s2 \<and>
               current_fg s2 = current_fg s \<and> current_bg s2 = current_bg s))"
proof -
  have l: "length (charbuf_back s) = 2400" "length (colourbuf_back s) = 908"
    "2 \<le> length (color_menu_buf s)"
    using assms(3,6,7) by (simp_all add: grid_consts)
  have fg: ?thesis if m: "fg_color_menu_mode s"
    unfolding Let_def
    using m fg_menu_two_digits [OF m assms(1,2) l(3) assms(4,5), of oob]
      fg_menu_cancel [OF m assms(1), of oob]
      restored_state [OF l(1,2), of "feed oob [d1, d2] s"]
      restored_state [OF l(1,2), of "handle_char oob 0x1B s"]
    by simp
  have bg: ?thesis if m: "bg_color_menu_mode s" and n: "\<not> fg_color_menu_mode s"
    unfolding Let_def
    using m n bg_menu_two_digits [OF m assms(1,2) l(3) assms(4,5) n, of oob]
      bg_menu_cancel [OF m assms(1) n, of oob]
      restored_state [OF l(1,2), of "feed oob [d1, d2] s"]
      restored_state [OF l(1,2), of "handle_char oob 0x1B s"]
    by simp
  show ?thesis
    using fg bg by (cases "fg_color_menu_mode s"; cases "bg_color_menu_mode s") simp_all
qed

theorem color_pick_witness:
  "(let s = handle_char zero_stray 0x06 main_init;
        a = feed zero_stray [0x34, 0x32] s;
        b = feed zero_stray [0x36, 0x34] s;
        c = handle_char zero_stray 0x1B s;
        s' = handle_char zero_stray 0x02 main_init;
        a' = feed zero_stray [0x31, 0x37] s' in
     fg_color_menu_mode s \<and> current_fg s = 12 \<and>
     \<not> fg_color_menu_mode a \<and> current_fg a = 42 \<and> region_restored s a \<and>
     \<not> fg_color_menu_mode b \<and> current_fg b = 12 \<and> region_restored s b \<and>
     \<not> fg_color_menu_mode c \<and> current_fg c = 12 \<and> region_restored s c \<and>
     bg_color_menu_mode s' \<and> current_bg s' = 0 \<and>
     \<not> bg_color_menu_mode a' \<and> current_bg a' = 17 \<and> region_restored s' a')"
proof -
  define s where "s = handle_char zero_stray 0x06 main_init"
  define s' where "s' = handle_char zero_stray 0x02 main_init"
  note o = fg_menu_open [folded s_def]
  note o' = bg_menu_open [folded s'_def]
  have d: "isdigit 0x34" "isdigit 0x32" "isdigit 0x36" "isdigit 0x31" "isdigit 0x37"
    by (simp_all add: isdigit_def)
  have v: "decimal_value [0x34, 0x32] = 42" "decimal_value [0x36, 0x34] = 64"
    "decimal_value [0x31, 0x37] = 17"
    by (simp_all add: decimal_value_def)
  note a = color_pick [OF o(2,3,4) d(1,2) o(7,8), of zero_stray, unfolded Let_def v]
  note b = color_pick [OF o(2,3,4) d(3,1) o(7,8), of zero_stray, unfolded Let_def v]
  note a' = color_pick [OF o'(3,4,5) d(4,5) o'(8,9), of zero_stray, unfolded Let_def v]
  show ?thesis
    unfolding Let_def s_def [symmetric] s'_def [symmetric]
    using a b a' o(1,5) o'(1,2,7) by simp
qed

text \<open>
  The claim as stated fails for a two-digit value of 64 or more: after Ctrl+F and the
  digit 6 the foreground menu is active, and the digit 4 closes it (the colour stays).
\<close>

theorem color_pick_counterexample:
  "fg_color_menu_mode (feed zero_stray [0x06, 0x36] main_init) \<and>
   \<not> fg_color_menu_mode (feed zero_stray [0x06, 0x36, 0x34] main_init) \<and>
   current_fg (feed zero_stray [0x06, 0x36, 0x34] main_init) = current_fg main_init"
  by (simp add: run_defs)
section \<open>Proofs: where the back buffers are copied over the front buffers\<close>

text \<open>
  C3 (as amended). The render loop copies the back buffers over the front buffers only
  at its frame boundary: over one frame it copies once, at line 0, when a swap is
  pending, and at every other line it leaves the state as it is. The terminal loop
  copies as well, at once and at any line of the renderer: \<^verbatim>\<open>safe_request_swap\<close> performs
  the copy whenever the buffer is dirty or the cursor is drawn or visible, so that every
  byte other than CR and LF handled in Normal state with a visible cursor ends with the
  front buffers equal to the back buffers.
\<close>

theorem swap_points:
  "core1_frame s = (if swap_pending s then perform_swap s else s) \<and>
   (0 < y \<longrightarrow> core1_scanline y s = s) \<and>
   charbuf_front (perform_swap s) = charbuf_back s \<and>
   colourbuf_front (perform_swap s) = colourbuf_back s \<and>
   charbuf_front (safe_request_swap s) = (if swap_due s then charbuf_back s else charbuf_front s) \<and>
   colourbuf_front (safe_request_swap s)
     = (if swap_due s then colourbuf_back s else colourbuf_front s) \<and>
   (normal_mode s \<and> cursor_visible s \<and> c \<noteq> 0x0D \<and> c \<noteq> 0x0A \<longrightarrow>
      charbuf_front (handle_char oob c s) = charbuf_back (handle_char oob c s) \<and>
      colourbuf_front (handle_char oob c s) = colourbuf_back (handle_char oob c s))"
  using byte_ends_in_copy [of s c oob]
  by (simp add: core1_frame_eq core1_scanline_def perform_swap_def safe_request_swap_nf)

theorem swap_points_witness:
  "swap_pending (clear_screen main_init) \<and>
   core1_frame (clear_screen main_init) = perform_swap (clear_screen main_init) \<and>
   core1_scanline 5 (clear_screen main_init) = clear_screen main_init \<and>
   swap_due (clear_screen main_init) \<and>
   charbuf_front (safe_request_swap (clear_screen main_init))
     = charbuf_back (clear_screen main_init) \<and>
   charbuf_front (handle_char zero_stray 0x41 (clear_screen main_init))
     = charbuf_back (handle_char zero_stray 0x41 (clear_screen main_init))"
proof -
  have f: "swap_pending (clear_screen main_init)" "swap_due (clear_screen main_init)"
    "normal_mode (clear_screen main_init)" "cursor_visible (clear_screen main_init)"
    using main_init_fields(1,7)
    by (simp_all add: clear_screen_nf swap_due_def normal_mode_def main_init_def static_init_def
        perform_swap_def)
  show ?thesis
    using swap_points [of "clear_screen main_init" 5 "0x41" zero_stray] f by simp
qed


text \<open>
  The claim as stated fails: the initial state has no swap pending and a blank front
  buffer, and handling the letter \<open>A\<close> alone, with no step of the render loop, puts
  the letter into the front buffer.
\<close>

theorem copy_outside_frame_boundary:
  "\<not> swap_pending main_init \<and> charbuf_front main_init ! 0 = 0x20 \<and>
   charbuf_front (handle_char zero_stray 0x41 main_init) ! 0 = 0x41"
proof -
  have "charbuf_front (handle_char zero_stray 0x41 main_init) ! 0 = 0x41"
    by (simp add: run_defs charbuf_set_nth length_charbuf_set length_clear_bufs put_char_def put_colour_def
        uint_of_int_def cursor_glyph_def)
  moreover have "\<not> swap_pending main_init"
    by (simp add: main_init_def static_init_def clear_screen_nf perform_swap_def)
  ultimately show ?thesis by (simp add: main_init_blank)
qed

end
